theory Spec2Isabelle
  imports Complex_Main "HOL-Library.AList" "HOL-Library.Multiset"
begin

section \<open>The continuous-batching model runner of vllm-spyre\<close>

text \<open>
  A shallow embedding of \<^verbatim>\<open>ContinuousBatchingSpyreModelRunner\<close>
  (\<^verbatim>\<open>vllm_spyre/v1/worker/spyre_model_runner.py\<close>) and of the parts of its base class
  \<^verbatim>\<open>SpyreModelRunner\<close> that it calls. Python integers are \<open>int\<close>, a \<^verbatim>\<open>deque\<close> is a list
  whose head is the left end, a \<^verbatim>\<open>dict\<close> is an association list in insertion order
  (\<open>map_of\<close> reads it, \<open>AList.update\<close> is \<^verbatim>\<open>d[k] = v\<close>, \<open>AList.delete\<close> is
  \<^verbatim>\<open>d.pop(k, None)\<close>). Every \<^verbatim>\<open>assert\<close> and every exception of the source is a
  value of \<open>error\<close>; a step that raises returns \<open>Inl\<close> and no state.
\<close>

subsection \<open>Errors\<close>

datatype error =
    Assert_single_prefill        \<comment> \<open>\<^verbatim>\<open>assert len(new_requests) == 1\<close>\<close>
  | Assert_prompt_len_le_tkv     \<comment> \<open>\<^verbatim>\<open>assert prompt_len <= self.tkv\<close>\<close>
  | Assert_decode_nonempty       \<comment> \<open>\<^verbatim>\<open>assert len(cached_request_data.req_ids) > 0\<close>\<close>
  | Assert_batch_matches_cached  \<comment> \<open>\<^verbatim>\<open>assert len(self.input_batch.req_id_to_index) == len(...)\<close>\<close>
  | Assert_min_decode_batch      \<comment> \<open>\<^verbatim>\<open>assert len(input_tokens) >= 2\<close>\<close>
  | Assert_no_running_requests   \<comment> \<open>\<^verbatim>\<open>assert len(scheduled_cached_reqs.req_ids) == 0\<close>\<close>
  | Assert_batch_capacity        \<comment> \<open>the slot table is full\<close>
  | IndexError
  | KeyError
  | ZeroDivisionError
  | AttributeError
  | ValueError
  | OverflowError

subsection \<open>Data\<close>

record sampling_params =
  max_tokens :: int

record new_request_data =
  new_req_id :: string
  new_prompt_token_ids :: "int list"
  new_sampling_params :: "sampling_params option"

record cached_request_data =
  req_ids :: "string list"
  num_computed_tokens :: "int list"
  new_token_ids :: "int list list"

record scheduler_output =
  scheduled_new_reqs :: "new_request_data list"
  scheduled_cached_reqs :: cached_request_data
  finished_req_ids :: "string list"
  total_num_scheduled_tokens :: int

text \<open>
  \<^verbatim>\<open>CachedRequestState\<close> is declared in \<^verbatim>\<open>spyre_input_batch.py\<close>; the runner reads and
  writes the fields below. \<^verbatim>\<open>num_tokens\<close> is the number of prompt and output tokens.
\<close>

record cached_request_state =
  req_id :: string
  prompt_token_ids :: "int list"
  output_token_ids :: "int list"
  left_padding :: int

definition num_tokens :: "cached_request_state \<Rightarrow> int" where
  "num_tokens r = int (length (prompt_token_ids r)) + int (length (output_token_ids r))"

record model_forward_inputs =
  input_tokens :: "int list list"
  input_positions :: "int list list"
  current_tkv_mask :: "int list option"
  left_padded_prompt_mask :: "int list option"
  block_table :: "int list list option"
  slot_mapping :: "int list list"
  is_prompt :: bool

text \<open>
  The state of the runner. \<open>input_batch\<close> is the slot table: the resident request ids in
  dense-index order, with capacity \<open>max_num_reqs\<close>. \<open>model_indices\<close> is
  \<^verbatim>\<open>self.model.indices\<close>, the active-row mask read by the forward pass.
\<close>

record runner =
  block_size :: int
  pad_token_id :: int
  max_num_reqs :: nat
  n_blocks :: nat
  block_pool :: "int list"
  req_ids2blocks :: "(string \<times> int list) list"
  req_ids2reserved_blocks :: "(string \<times> int) list"
  tkv :: int
  requests :: "(string \<times> cached_request_state) list"
  input_batch :: "string list"
  model_indices :: "bool list"
  is_driver_worker :: bool

subsection \<open>The slot table\<close>

text \<open>
  Modelled from the spec: \<^verbatim>\<open>InputBatch\<close> (\<^verbatim>\<open>spyre_input_batch.py\<close>) is not among the
  sources. Section 4.1: \<^verbatim>\<open>add\<close> inserts a new slot at the next free dense index and fails
  if the capacity is exceeded; removing a request that is not present is a no-op; dense
  indices are contiguous.
\<close>

definition add_request :: "nat \<Rightarrow> string list \<Rightarrow> string \<Rightarrow> error + string list" where
  "add_request cap batch rid =
     (if cap \<le> length batch then Inl Assert_batch_capacity else Inr (batch @ [rid]))"

definition remove_request :: "string list \<Rightarrow> string \<Rightarrow> string list" where
  "remove_request batch rid = removeAll rid batch"

definition sorted_requests_ids :: "string list \<Rightarrow> string list" where
  "sorted_requests_ids batch = batch"

definition get_unpadded_output_indices :: "string list \<Rightarrow> (string \<times> nat) list" where
  "get_unpadded_output_indices batch = zip batch [0..<length batch]"

subsection \<open>The block pool\<close>

text \<open>
  \<^verbatim>\<open>math.ceil(n / b)\<close> on Python integers. The quotient \<^verbatim>\<open>n / b\<close> is a float: the double
  nearest to the exact quotient, ties to the even significand, \<^verbatim>\<open>OverflowError\<close> when
  that is \<open>2 ^ 1024\<close> or more, \<^verbatim>\<open>ZeroDivisionError\<close> for \<open>b = 0\<close>; \<^verbatim>\<open>math.ceil\<close> is the
  exact ceiling of that double.

  \<open>round_half_even\<close> rounds a rational to an integer. A double is \<open>m * 2 ^ e\<close> with
  \<open>m < 2 ^ 53\<close> and \<open>- 1074 \<le> e \<le> 971\<close>: below \<open>2 ^ 53\<close> the quotient is scaled up by
  \<open>2 ^ t\<close>, with the largest \<open>t \<le> 1074\<close> that keeps it below \<open>2 ^ 53\<close>, rounded and scaled
  back; from \<open>2 ^ 53\<close> on it is scaled down by the least \<open>2 ^ e\<close> that brings it below
  \<open>2 ^ 53\<close>.
\<close>

definition round_half_even :: "rat \<Rightarrow> int" where
  "round_half_even y =
     (let f = \<lfloor>y\<rfloor>; d = y - of_int f
      in if d < 1 / 2 then f else if 1 / 2 < d then f + 1 else if even f then f else f + 1)"

primrec scale_up :: "nat \<Rightarrow> rat \<Rightarrow> nat" where
  "scale_up 0 y = 0"
| "scale_up (Suc fuel) y = (if y * 2 < 2 ^ 53 then Suc (scale_up fuel (y * 2)) else 0)"

primrec scale_down :: "nat \<Rightarrow> rat \<Rightarrow> nat option" where
  "scale_down 0 y = None"
| "scale_down (Suc fuel) y =
     (if y / 2 < 2 ^ 53 then Some 1 else map_option Suc (scale_down fuel (y / 2)))"

definition to_double :: "rat \<Rightarrow> error + rat" where
  "to_double q =
     (let a = \<bar>q\<bar>
      in if a < 2 ^ 53 then
           (let t = scale_up 1074 a
            in Inr (sgn q * of_int (round_half_even (a * 2 ^ t)) / 2 ^ t))
         else
           (case scale_down 971 a of
              None \<Rightarrow> Inl OverflowError
            | Some e \<Rightarrow>
                (let v = of_int (round_half_even (a / 2 ^ e)) * 2 ^ e
                 in if 2 ^ 1024 \<le> v then Inl OverflowError else Inr (sgn q * v))))"

definition true_div :: "int \<Rightarrow> int \<Rightarrow> error + rat" where
  "true_div n b = (if b = 0 then Inl ZeroDivisionError else to_double (of_int n / of_int b))"

definition math_ceil_div :: "int \<Rightarrow> int \<Rightarrow> error + int" where
  "math_ceil_div n b = (case true_div n b of Inl e \<Rightarrow> Inl e | Inr x \<Rightarrow> Inr \<lceil>x\<rceil>)"

text \<open>
  The ceiling of the exact quotient, for a divisor that is not zero. It is the value of
  \<^verbatim>\<open>math.ceil(n / b)\<close> as long as the dividend is below \<open>2 ^ 53\<close> in absolute value and
  the divisor is positive and below \<open>2 ^ 53\<close> (lemma \<open>math_ceil_exact\<close> below); beyond
  that range the float quotient can round to another integer (lemma
  \<open>math_ceil_rounded\<close>).
\<close>

definition ceil_div :: "int \<Rightarrow> int \<Rightarrow> int" where
  "ceil_div n b = - ((- n) div b)"

text \<open>
  \<^verbatim>\<open>_set_blocks\<close>. The override \<^verbatim>\<open>SpyrePlatform.get_num_spyre_blocks_override()\<close> is a
  parameter: the platform module is not among the sources.
\<close>

definition set_blocks :: "int \<Rightarrow> nat \<Rightarrow> runner \<Rightarrow> runner" where
  "set_blocks num_blocks_override num_blocks s =
     (let num_blocks' = (if num_blocks_override > 0 then nat num_blocks_override else num_blocks)
      in s\<lparr>n_blocks := num_blocks', block_pool := map int [0..<num_blocks']\<rparr>)"

text \<open>The fields \<^verbatim>\<open>__init__\<close> sets, with the pool of \<open>num_blocks\<close> blocks.\<close>

definition init_runner :: "int \<Rightarrow> int \<Rightarrow> nat \<Rightarrow> bool \<Rightarrow> int \<Rightarrow> nat \<Rightarrow> runner" where
  "init_runner bs pad cap driver num_blocks_override num_blocks =
     set_blocks num_blocks_override num_blocks
       \<lparr>block_size = bs, pad_token_id = pad, max_num_reqs = cap, n_blocks = 0,
        block_pool = [], req_ids2blocks = [], req_ids2reserved_blocks = [], tkv = 0,
        requests = [], input_batch = [], model_indices = [], is_driver_worker = driver\<rparr>"

definition get_n_free_blocks :: "runner \<Rightarrow> int" where
  "get_n_free_blocks s = int (n_blocks s) - sum_list (map snd (req_ids2reserved_blocks s))"

subsection \<open>Loops that can raise\<close>

text \<open>
  A \<^verbatim>\<open>for\<close> loop whose body may raise: the body runs on every element in turn and the
  first exception ends the loop.
\<close>

fun for_each :: "('a \<Rightarrow> 's \<Rightarrow> error + 's) \<Rightarrow> 'a list \<Rightarrow> 's \<Rightarrow> error + 's" where
  "for_each body [] s = Inr s"
| "for_each body (x # xs) s =
     (case body x s of Inl e \<Rightarrow> Inl e | Inr s' \<Rightarrow> for_each body xs s')"

text \<open>\<^verbatim>\<open>enumerate(xs)\<close>.\<close>

definition enumerate_list :: "'a list \<Rightarrow> (nat \<times> 'a) list" where
  "enumerate_list xs = zip [0..<length xs] xs"

subsection \<open>Prefill\<close>

text \<open>
  The loop \<^verbatim>\<open>for pos_i in range(block_padding)\<close> of \<^verbatim>\<open>_prepare_prompt\<close>: at every
  position that starts a block one block id is popped from the left of the pool.
  \<open>block_number\<close> is the loop's variable of that name.
\<close>

fun fill_slots ::
  "int \<Rightarrow> int list \<Rightarrow> int list \<Rightarrow> int list \<Rightarrow> int list \<Rightarrow> int
     \<Rightarrow> error + (int list \<times> int list \<times> int list)" where
  "fill_slots bs [] pool blocks slots block_number = Inr (pool, blocks, slots)"
| "fill_slots bs (pos_i # ps) pool blocks slots block_number =
     (if pos_i mod bs = 0 then
        (case pool of
           [] \<Rightarrow> Inl IndexError
         | b # pool' \<Rightarrow>
             fill_slots bs ps pool' (blocks @ [b]) (slots @ [b * bs + pos_i mod bs]) b)
      else fill_slots bs ps pool blocks (slots @ [block_number * bs + pos_i mod bs])
             block_number)"

text \<open>
  \<^verbatim>\<open>SpyreModelRunner.pad_input_ids\<close> for the single sequence of a prefill: left padding
  to \<open>min_pad_length\<close>; the padded token ids and the position ids.
\<close>

definition base_pad_input_ids :: "int \<Rightarrow> int list \<Rightarrow> int \<Rightarrow> int list \<times> int list" where
  "base_pad_input_ids pad ids min_pad_length =
     (let seq_len = int (length ids);
          max_len = max min_pad_length seq_len;
          pads = replicate (nat (max_len - seq_len)) pad
      in (pads @ ids, pads @ map int [0..<length ids]))"

text \<open>
  \<^verbatim>\<open>ContinuousBatchingSpyreModelRunner.pad_input_ids\<close>: left padding to the cursor, then
  right padding to \<open>min_pad_length\<close>.
\<close>

definition pad_input_ids :: "int \<Rightarrow> int \<Rightarrow> int list \<Rightarrow> int \<Rightarrow> error + (int list \<times> int list)" where
  "pad_input_ids pad cur_tkv ids min_pad_length =
     (let (input_tokens_left, position_ids_left) = base_pad_input_ids pad ids cur_tkv;
          left_pad_len = int (length input_tokens_left);
          n_pads_right = min_pad_length - left_pad_len
      in if n_pads_right > 0 then
           (if position_ids_left = [] then Inl IndexError
            else Inr (input_tokens_left @ replicate (nat n_pads_right) pad,
                      position_ids_left @ replicate (nat n_pads_right) 0))
         else Inr (input_tokens_left, position_ids_left))"

text \<open>
  \<^verbatim>\<open>_prepare_prompt\<close>. Both ceilings of the function are \<^verbatim>\<open>math.ceil\<close> of a float
  quotient. The operand of the first, \<open>n\<close>, is the length of a list or the cursor, and a
  call that returns has built a list of \<open>block_padding \<ge> n\<close> slots: \<open>block_padding\<close> is
  modelled with the exact ceiling. The operand of the second holds \<^verbatim>\<open>max_tokens\<close>, which
  the request chooses: the reservation is modelled with the float quotient.
\<close>

definition prepare_prompt ::
  "runner \<Rightarrow> new_request_data list \<Rightarrow> error + (runner \<times> model_forward_inputs)" where
  "prepare_prompt s new_requests =
     (case new_requests of
        [request] \<Rightarrow>
          (let rid = new_req_id request;
               is_new_batch = (length (req_ids2blocks s) = 0);
               prompt_len = int (length (new_prompt_token_ids request))
           in if \<not> is_new_batch \<and> \<not> prompt_len \<le> tkv s then Inl Assert_prompt_len_le_tkv
              else if block_size s = 0 then Inl ZeroDivisionError
              else
                (let n = (if is_new_batch then prompt_len else tkv s);
                     block_padding = ceil_div n (block_size s) * block_size s;
                     tkv' = (if is_new_batch then block_padding else tkv s);
                     left_pad = tkv' - prompt_len;
                     new_tokens = (case new_sampling_params request of
                                     Some sp \<Rightarrow> max_tokens sp | None \<Rightarrow> 0)
                 in case math_ceil_div (tkv' + new_tokens - 1) (block_size s) of
                      Inl e \<Rightarrow> Inl e
                    | Inr n_reserved_blocks \<Rightarrow>
                  case fill_slots (block_size s) (map int [0..<nat block_padding])
                           (block_pool s) [] [] 0 of
                      Inl e \<Rightarrow> Inl e
                    | Inr (pool', blocks, slots) \<Rightarrow>
                        (case new_sampling_params request of
                           None \<Rightarrow> Inl AttributeError
                         | Some sp \<Rightarrow>
                             (case add_request (max_num_reqs s) (input_batch s) rid of
                                Inl e \<Rightarrow> Inl e
                              | Inr batch' \<Rightarrow>
                                  (case pad_input_ids (pad_token_id s) tkv'
                                          (new_prompt_token_ids request) block_padding of
                                     Inl e \<Rightarrow> Inl e
                                   | Inr (toks, poss) \<Rightarrow>
                                       Inr (s\<lparr>tkv := tkv',
                                              block_pool := pool',
                                              req_ids2reserved_blocks :=
                                                AList.update rid n_reserved_blocks
                                                  (req_ids2reserved_blocks s),
                                              req_ids2blocks :=
                                                AList.update rid blocks (req_ids2blocks s),
                                              requests :=
                                                AList.update rid
                                                  \<lparr>req_id = rid,
                                                   prompt_token_ids =
                                                     new_prompt_token_ids request,
                                                   output_token_ids = [],
                                                   left_padding = left_pad\<rparr>
                                                  (requests s),
                                              input_batch := batch',
                                              model_indices := [True]\<rparr>,
                                            \<lparr>input_tokens = [toks],
                                             input_positions = [poss],
                                             current_tkv_mask = None,
                                             left_padded_prompt_mask = None,
                                             block_table = None,
                                             slot_mapping = [slots],
                                             is_prompt = True\<rparr>))))))
      | _ \<Rightarrow> Inl Assert_single_prefill)"

subsection \<open>Decode\<close>

text \<open>
  \<^verbatim>\<open>cached_reqs_map\<close>: the dict comprehension over \<^verbatim>\<open>enumerate(req_ids)\<close>. A later pair
  of the comprehension overwrites an earlier one with the same key, and \<open>map_of\<close> reads
  the first pair of a list, hence the reversal.
\<close>

definition cached_reqs_map :: "string list \<Rightarrow> (string \<times> nat) list" where
  "cached_reqs_map ids = rev (zip ids [0..<length ids])"

text \<open>
  The five lists the loop of \<^verbatim>\<open>_prepare_decode\<close> fills, one row for every request.
\<close>

record decode_lists =
  dl_input_tokens :: "int list list"
  dl_input_positions :: "int list list"
  dl_block_table :: "int list list"
  dl_slot_mapping :: "int list list"
  dl_left_padded_prompt_mask :: "int list"

definition empty_decode_lists :: decode_lists where
  "empty_decode_lists =
     \<lparr>dl_input_tokens = [], dl_input_positions = [], dl_block_table = [],
      dl_slot_mapping = [], dl_left_padded_prompt_mask = []\<rparr>"

text \<open>
  \<^verbatim>\<open>if self.tkv // self.block_size + 1 > len(self.req_ids2blocks[req_id]):
  self.req_ids2blocks[req_id].append(self.block_pool.popleft())\<close>: the pool and the
  request's blocks after the statement.
\<close>

definition add_block_if_needed :: "int \<Rightarrow> int \<Rightarrow> int list \<Rightarrow> int list \<Rightarrow> error + (int list \<times> int list)" where
  "add_block_if_needed cur bs pool blocks =
     (if cur div bs + 1 > int (length blocks)
      then (case pool of
              [] \<Rightarrow> Inl IndexError
            | b # pool' \<Rightarrow> Inr (pool', blocks @ [b]))
      else Inr (pool, blocks))"

text \<open>
  The body of the loop \<^verbatim>\<open>for req_id in req_ids\<close> of \<^verbatim>\<open>_prepare_decode\<close>. The cursor
  is read, not changed: it advances after the loop.
\<close>

definition decode_req ::
  "cached_request_data \<Rightarrow> string \<Rightarrow> runner \<times> decode_lists \<Rightarrow> error + (runner \<times> decode_lists)" where
  "decode_req crd rid sa =
     (let s = fst sa; acc = snd sa
      in case map_of (requests s) rid of
           None \<Rightarrow> Inl KeyError
         | Some req_state \<Rightarrow>
             if block_size s = 0 then Inl ZeroDivisionError
             else
               (case map_of (req_ids2blocks s) rid of
                  None \<Rightarrow> Inl KeyError
                | Some blocks \<Rightarrow>
                    (case add_block_if_needed (tkv s) (block_size s) (block_pool s) blocks of
                       Inl e \<Rightarrow> Inl e
                     | Inr (pool', blocks') \<Rightarrow>
                         if blocks' = [] then Inl IndexError
                         else if output_token_ids req_state = [] then Inl IndexError
                         else
                           (case map_of (cached_reqs_map (req_ids crd)) rid of
                              None \<Rightarrow> Inl KeyError
                            | Some i \<Rightarrow>
                                if length (num_computed_tokens crd) \<le> i then Inl IndexError
                                else
                                  (let start_slot = last blocks' * block_size s;
                                       offset = tkv s mod block_size s
                                   in Inr (s\<lparr>block_pool := pool',
                                             req_ids2blocks :=
                                               AList.update rid blocks' (req_ids2blocks s)\<rparr>,
                                           \<lparr>dl_input_tokens =
                                              dl_input_tokens acc
                                                @ [[last (output_token_ids req_state)]],
                                            dl_input_positions =
                                              dl_input_positions acc
                                                @ [[num_computed_tokens crd ! i]],
                                            dl_block_table = dl_block_table acc @ [blocks'],
                                            dl_slot_mapping =
                                              dl_slot_mapping acc @ [[start_slot + offset]],
                                            dl_left_padded_prompt_mask =
                                              dl_left_padded_prompt_mask acc
                                                @ [left_padding req_state]\<rparr>))))))"

text \<open>\<^verbatim>\<open>torch.tensor\<close> of a list of rows needs rows of one length.\<close>

definition ragged :: "'a list list \<Rightarrow> bool" where
  "ragged rows = (filter (\<lambda>r. length r \<noteq> length (hd rows)) rows \<noteq> [])"

text \<open>\<^verbatim>\<open>torch.cat(2 * [x])\<close> when a single request decodes, \<open>x\<close> otherwise.\<close>

definition pad_batch :: "bool \<Rightarrow> 'a list \<Rightarrow> 'a list" where
  "pad_batch single rows = (if single then rows @ rows else rows)"

definition prepare_decode ::
  "runner \<Rightarrow> cached_request_data \<Rightarrow> error + (runner \<times> model_forward_inputs)" where
  "prepare_decode s crd =
     (if \<not> length (req_ids crd) > 0 then Inl Assert_decode_nonempty
      else if length (input_batch s) \<noteq> length (req_ids crd) then Inl Assert_batch_matches_cached
      else
        (case for_each (decode_req crd) (sorted_requests_ids (input_batch s))
                (s, empty_decode_lists) of
           Inl e \<Rightarrow> Inl e
         | Inr (s1, acc) \<Rightarrow>
             (let tkv' = tkv s1 + 1;
                  current = replicate (length (dl_input_tokens acc)) tkv';
                  indices = replicate (length (req_ids crd)) True;
                  single = (length (req_ids crd) = 1)
              in if ragged (dl_block_table acc) then Inl ValueError
                 else if \<not> length (pad_batch single (dl_input_tokens acc)) \<ge> 2
                 then Inl Assert_min_decode_batch
                 else
                   Inr (s1\<lparr>tkv := tkv',
                           model_indices := (if single then indices @ [False] else indices)\<rparr>,
                        \<lparr>input_tokens = pad_batch single (dl_input_tokens acc),
                         input_positions = pad_batch single (dl_input_positions acc),
                         current_tkv_mask = Some (pad_batch single current),
                         left_padded_prompt_mask =
                           Some (pad_batch single (dl_left_padded_prompt_mask acc)),
                         block_table = Some (pad_batch single (dl_block_table acc)),
                         slot_mapping = pad_batch single (dl_slot_mapping acc),
                         is_prompt = False\<rparr>))))"

subsection \<open>Left-padding reclamation\<close>

text \<open>
  One round of the inner loop \<^verbatim>\<open>for _ in range(n_padded_blocks)\<close> of
  \<^verbatim>\<open>reduce_left_padding\<close> for the request \<open>rid\<close>: one block leaves the left end of its
  table and joins the right end of the pool, and its ledger entry drops by one.
\<close>

definition free_padded_block :: "string \<Rightarrow> runner \<Rightarrow> error + runner" where
  "free_padded_block rid s =
     (case map_of (req_ids2blocks s) rid of
        None \<Rightarrow> Inl KeyError
      | Some [] \<Rightarrow> Inl IndexError
      | Some (freed_block_id # rest) \<Rightarrow>
          (case map_of (req_ids2reserved_blocks s) rid of
             None \<Rightarrow> Inl KeyError
           | Some r \<Rightarrow>
               Inr (s\<lparr>req_ids2blocks := AList.update rid rest (req_ids2blocks s),
                      block_pool := block_pool s @ [freed_block_id],
                      req_ids2reserved_blocks :=
                        AList.update rid (r - 1) (req_ids2reserved_blocks s)\<rparr>)))"

text \<open>
  The body of the outer loop \<^verbatim>\<open>for req in requests\<close>, for the value stored under the
  key \<open>k\<close> of \<^verbatim>\<open>self.requests\<close>.
\<close>

definition reduce_req :: "int \<Rightarrow> int \<Rightarrow> string \<Rightarrow> runner \<Rightarrow> error + runner" where
  "reduce_req offset n_padded_blocks k s =
     (case map_of (requests s) k of
        None \<Rightarrow> Inl KeyError
      | Some req \<Rightarrow>
          for_each (\<lambda>_. free_padded_block (req_id req))
            (replicate (nat n_padded_blocks) ())
            (s\<lparr>requests :=
                 AList.update k (req\<lparr>left_padding := left_padding req - offset\<rparr>)
                   (requests s)\<rparr>))"

definition reduce_left_padding :: "runner \<Rightarrow> error + runner" where
  "reduce_left_padding s =
     (if length (requests s) = 0 then Inr s
      else if block_size s = 0 then Inl ZeroDivisionError
      else
        (let min_left_pad = min_list (map (left_padding \<circ> snd) (requests s));
             n_padded_blocks = min_left_pad div block_size s;
             offset = n_padded_blocks * block_size s
         in case (if offset > 0
                  then for_each (reduce_req offset n_padded_blocks) (map fst (requests s)) s
                  else Inr s) of
              Inl e \<Rightarrow> Inl e
            | Inr s' \<Rightarrow> Inr (s'\<lparr>tkv := tkv s' - offset\<rparr>)))"

subsection \<open>Bookkeeping between steps\<close>

text \<open>
  The tokens \<^verbatim>\<open>SpyreModelRunner.update_states\<close> adds to the output history of a running
  request: \<^verbatim>\<open>new_token_ids[-1]\<close> for one new token, the slice
  \<^verbatim>\<open>new_token_ids[-num_new_tokens:]\<close> for more.
\<close>

definition tokens_to_add :: "int \<Rightarrow> int list \<Rightarrow> error + int list" where
  "tokens_to_add num_new_tokens new_ids =
     (if num_new_tokens = 1 then (if new_ids = [] then Inl IndexError else Inr [last new_ids])
      else if num_new_tokens > 0
      then Inr (drop (length new_ids - nat num_new_tokens) new_ids)
      else Inr [])"

text \<open>
  The body of the loop of \<^verbatim>\<open>SpyreModelRunner.update_states\<close> over the running requests,
  as far as it changes \<^verbatim>\<open>self.requests\<close>. The copy into \<^verbatim>\<open>token_ids_cpu\<close> stays inside
  the slot table.
\<close>

definition update_cached_req :: "cached_request_data \<Rightarrow> nat \<times> string \<Rightarrow> runner \<Rightarrow> error + runner" where
  "update_cached_req crd ir s =
     (let i = fst ir; rid = snd ir
      in case map_of (requests s) rid of
           None \<Rightarrow> Inl KeyError
         | Some req_state \<Rightarrow>
             if length (num_computed_tokens crd) \<le> i then Inl IndexError
             else if length (new_token_ids crd) > 0 \<and> length (new_token_ids crd) \<le> i
             then Inl IndexError
             else
               (let new_ids =
                      (if length (new_token_ids crd) > 0 then new_token_ids crd ! i else []);
                    num_new_tokens =
                      num_computed_tokens crd ! i + int (length new_ids) - num_tokens req_state
                in case tokens_to_add num_new_tokens new_ids of
                     Inl e \<Rightarrow> Inl e
                   | Inr added \<Rightarrow>
                       Inr (s\<lparr>requests :=
                                AList.update rid
                                  (req_state\<lparr>output_token_ids :=
                                                 output_token_ids req_state @ added\<rparr>)
                                  (requests s)\<rparr>)))"

text \<open>The body of the loop of the base class over the finished request ids.\<close>

definition remove_finished_req :: "string \<Rightarrow> runner \<Rightarrow> runner" where
  "remove_finished_req rid s =
     s\<lparr>input_batch := remove_request (input_batch s) rid,
       requests := AList.delete rid (requests s)\<rparr>"

text \<open>
  The body of the loop of \<^verbatim>\<open>ContinuousBatchingSpyreModelRunner.update_states\<close>:
  \<^verbatim>\<open>if blocks_to_free := self.req_ids2blocks.pop(req_id, None)\<close>. The pop removes the
  table; the body runs when the popped deque is true, that is, not empty.
\<close>

definition free_request :: "string \<Rightarrow> runner \<Rightarrow> error + runner" where
  "free_request rid s =
     (case map_of (req_ids2blocks s) rid of
        None \<Rightarrow> Inr s
      | Some blocks_to_free \<Rightarrow>
          (let s1 = s\<lparr>req_ids2blocks := AList.delete rid (req_ids2blocks s)\<rparr>
           in if blocks_to_free = [] then Inr s1
              else
                (case map_of (req_ids2reserved_blocks s1) rid of
                   None \<Rightarrow> Inl KeyError
                 | Some r \<Rightarrow>
                     Inr (s1\<lparr>req_ids2reserved_blocks :=
                                AList.delete rid (req_ids2reserved_blocks s1),
                              block_pool := block_pool s1 @ blocks_to_free\<rparr>))))"

definition update_states :: "runner \<Rightarrow> scheduler_output \<Rightarrow> error + runner" where
  "update_states s so =
     (let crd = scheduled_cached_reqs so
      in case for_each (update_cached_req crd) (enumerate_list (req_ids crd)) s of
           Inl e \<Rightarrow> Inl e
         | Inr s1 \<Rightarrow>
             for_each free_request (finished_req_ids so)
               (fold remove_finished_req (finished_req_ids so) s1))"

subsection \<open>One step\<close>

text \<open>
  \<^verbatim>\<open>ContinuousBatchingSpyreModelRunner.prepare_model_input\<close>: reclamation first, then a
  prefill when the scheduler sends a new request and a decode otherwise.
\<close>

definition prepare_model_input ::
  "runner \<Rightarrow> scheduler_output \<Rightarrow> error + (runner \<times> model_forward_inputs)" where
  "prepare_model_input s so =
     (case reduce_left_padding s of
        Inl e \<Rightarrow> Inl e
      | Inr s1 \<Rightarrow>
          if length (scheduled_new_reqs so) > 0 then
            (if length (req_ids (scheduled_cached_reqs so)) \<noteq> 0 then Inl Assert_no_running_requests
             else prepare_prompt s1 (scheduled_new_reqs so))
          else prepare_decode s1 (scheduled_cached_reqs so))"

text \<open>
  The body of the loop of \<^verbatim>\<open>execute_model\<close> that adds the sampled tokens to the request
  cache: \<^verbatim>\<open>for i, req in enumerate(req_ids): req_state.output_token_ids.extend(sampled_ids[i])\<close>.
\<close>

definition append_sampled :: "int list list \<Rightarrow> nat \<times> string \<Rightarrow> runner \<Rightarrow> error + runner" where
  "append_sampled sampled_ids ir s =
     (let i = fst ir; rid = snd ir
      in case map_of (requests s) rid of
           None \<Rightarrow> Inl KeyError
         | Some req_state \<Rightarrow>
             if length sampled_ids \<le> i then Inl IndexError
             else
               Inr (s\<lparr>requests :=
                        AList.update rid
                          (req_state\<lparr>output_token_ids :=
                                         output_token_ids req_state @ sampled_ids ! i\<rparr>)
                          (requests s)\<rparr>))"

record model_runner_output =
  out_req_ids :: "string list"
  out_req_id_to_index :: "(string \<times> nat) list"
  out_sampled_token_ids :: "int list list"
  out_tkv :: int
  out_n_free_blocks :: int

text \<open>
  \<^verbatim>\<open>EMPTY_MODEL_RUNNER_OUTPUT\<close> of vLLM, which has no request and no sampled token, and
  \<^verbatim>\<open>CBSpyreModelRunnerOutput\<close>, which adds the cursor and the free-block count.
\<close>

definition cb_output ::
  "string list \<Rightarrow> (string \<times> nat) list \<Rightarrow> int list list \<Rightarrow> int \<Rightarrow> int \<Rightarrow> model_runner_output" where
  "cb_output ids idx sampled cur free =
     \<lparr>out_req_ids = ids, out_req_id_to_index = idx, out_sampled_token_ids = sampled,
      out_tkv = cur, out_n_free_blocks = free\<rparr>"

definition EMPTY_MODEL_RUNNER_OUTPUT :: "int \<Rightarrow> int \<Rightarrow> model_runner_output" where
  "EMPTY_MODEL_RUNNER_OUTPUT cur free = cb_output [] [] [] cur free"

text \<open>
  \<^verbatim>\<open>execute_model\<close> of the continuous-batching runner, which wraps the one of the base
  class. The forward pass and the sampler are outside the runner: \<open>sample\<close> stands for
  both and gives, for the prepared inputs and the active-row mask, the rows of sampled
  token ids.
\<close>

definition execute_model ::
  "(model_forward_inputs \<Rightarrow> bool list \<Rightarrow> int list list) \<Rightarrow> runner \<Rightarrow> scheduler_output
     \<Rightarrow> error + (runner \<times> model_runner_output)" where
  "execute_model sample s so =
     (let cur = (\<lambda>s'. if total_num_scheduled_tokens so > 0 then tkv s' else 0)
      in case update_states s so of
           Inl e \<Rightarrow> Inl e
         | Inr s1 \<Rightarrow>
             if total_num_scheduled_tokens so = 0
             then Inr (s1, EMPTY_MODEL_RUNNER_OUTPUT (cur s1) (get_n_free_blocks s1))
             else
               (case prepare_model_input s1 so of
                  Inl e \<Rightarrow> Inl e
                | Inr (s2, model_input) \<Rightarrow>
                    (let sampled_ids = sample model_input (model_indices s2);
                         is_prefill = is_prompt model_input;
                         req_id_to_index =
                           (if is_prefill
                            then get_unpadded_output_indices
                                   (map new_req_id (scheduled_new_reqs so))
                            else get_unpadded_output_indices (input_batch s2));
                         ids = (if is_prefill then map new_req_id (scheduled_new_reqs so)
                                else sorted_requests_ids (input_batch s2))
                     in case for_each (append_sampled sampled_ids) (enumerate_list ids) s2 of
                          Inl e \<Rightarrow> Inl e
                        | Inr s3 \<Rightarrow>
                            if \<not> is_driver_worker s3
                            then Inr (s3, EMPTY_MODEL_RUNNER_OUTPUT (cur s3)
                                            (get_n_free_blocks s3))
                            else Inr (s3, cb_output (map fst req_id_to_index) req_id_to_index
                                            sampled_ids (cur s3) (get_n_free_blocks s3)))))"

subsection \<open>Reachable states\<close>

text \<open>The block ids held by the resident requests, request after request.\<close>

definition held :: "runner \<Rightarrow> int list" where
  "held s = concat (map snd (req_ids2blocks s))"

text \<open>
  The invariant behind block conservation: the pool and the block tables together hold
  every block id of \<^verbatim>\<open>range(n_blocks)\<close> once, and no request has two tables.
\<close>

definition conserved :: "runner \<Rightarrow> bool" where
  "conserved s \<longleftrightarrow>
     mset (block_pool s) + mset (held s) = mset (map int [0..<n_blocks s]) \<and>
     distinct (map fst (req_ids2blocks s))"

text \<open>
  The states the runner reaches from a fresh pool by prefills, decodes, reclamations,
  the bookkeeping of \<^verbatim>\<open>update_states\<close> (which processes the finished requests) and
  the recording of sampled tokens, each of which returned without raising. A request id
  is unique while resident (section 3 of the specification): the scheduler sends a new
  request only under an id that holds no block table.
\<close>

inductive reachable :: "runner \<Rightarrow> bool" where
  fresh: "reachable (init_runner bs pad cap driver num_blocks_override num_blocks)"
| prefill: "reachable s \<Longrightarrow> new_req_id r \<notin> fst ` set (req_ids2blocks s) \<Longrightarrow>
            prepare_prompt s [r] = Inr (s', inp) \<Longrightarrow> reachable s'"
| decode: "reachable s \<Longrightarrow> prepare_decode s crd = Inr (s', inp) \<Longrightarrow> reachable s'"
| reclaim: "reachable s \<Longrightarrow> reduce_left_padding s = Inr s' \<Longrightarrow> reachable s'"
| finished: "reachable s \<Longrightarrow> update_states s so = Inr s' \<Longrightarrow> reachable s'"
| sampled: "reachable s \<Longrightarrow> for_each (append_sampled sampled_ids) irs s = Inr s' \<Longrightarrow>
            reachable s'"

subsection \<open>Reading the block tables\<close>

text \<open>The block table of a request, empty for a request that has none.\<close>

definition table_of :: "runner \<Rightarrow> string \<Rightarrow> int list" where
  "table_of s rid = (case map_of (req_ids2blocks s) rid of Some blocks \<Rightarrow> blocks | None \<Rightarrow> [])"

text \<open>
  The length \<^verbatim>\<open>block_padding\<close> to which \<^verbatim>\<open>_prepare_prompt\<close> pads the request \<open>r\<close> in
  the state \<open>s\<close>: \<^verbatim>\<open>math.ceil(n / self.block_size) * self.block_size\<close>, where \<open>n\<close> is the
  prompt length in an empty batch and the cursor otherwise.
\<close>

definition block_padding :: "runner \<Rightarrow> new_request_data \<Rightarrow> int" where
  "block_padding s r =
     ceil_div (if length (req_ids2blocks s) = 0 then int (length (new_prompt_token_ids r))
               else tkv s) (block_size s) * block_size s"

text \<open>
  The test of \<^verbatim>\<open>_prepare_decode\<close> for one more block,
  \<^verbatim>\<open>self.tkv // self.block_size + 1 > len(self.req_ids2blocks[req_id])\<close>, in the state
  before the step.
\<close>

definition needs_block :: "runner \<Rightarrow> string \<Rightarrow> bool" where
  "needs_block s rid \<longleftrightarrow> tkv s div block_size s + 1 > int (length (table_of s rid))"

text \<open>
  The quantities \<^verbatim>\<open>reduce_left_padding\<close> computes first: \<^verbatim>\<open>min_left_pad\<close>, the least left
  padding of the cached requests (0 here when there is none, where the function returns
  at once), and \<^verbatim>\<open>n_padded_blocks = min_left_pad // self.block_size\<close>.
\<close>

definition min_left_pad :: "runner \<Rightarrow> int" where
  "min_left_pad s =
     (if requests s = [] then 0 else min_list (map (left_padding \<circ> snd) (requests s)))"

definition n_padded_blocks :: "runner \<Rightarrow> int" where
  "n_padded_blocks s = min_left_pad s div block_size s"

text \<open>A cached request with its left padding lowered by \<open>offset\<close>.\<close>

definition shift_left :: "int \<Rightarrow> string \<times> cached_request_state \<Rightarrow> string \<times> cached_request_state" where
  "shift_left offset p = (fst p, (snd p)\<lparr>left_padding := left_padding (snd p) - offset\<rparr>)"

text \<open>
  What \<^verbatim>\<open>self.requests\<close> is between steps: a dict, so no key twice; every cached request
  under its own id, as \<^verbatim>\<open>_prepare_prompt\<close> stores it; no negative left padding.
\<close>

definition requests_wf :: "runner \<Rightarrow> bool" where
  "requests_wf s \<longleftrightarrow>
     distinct (map fst (requests s)) \<and>
     list_all (\<lambda>p. req_id (snd p) = fst p \<and> 0 \<le> left_padding (snd p)) (requests s)"

subsection \<open>A worked run\<close>

text \<open>
  A runner with block size 4, eight blocks and room for four requests. Request \<open>a\<close>
  (five prompt tokens, at most six new tokens) starts a batch, one token is sampled, the
  batch decodes once, and request \<open>b\<close> (three prompt tokens, at most two new tokens)
  joins it; then \<open>a\<close> finishes. Request \<open>e\<close> has an empty prompt.
\<close>

definition ex_fresh :: runner where
  "ex_fresh = init_runner 4 0 4 True 0 8"

definition ex_req_a :: new_request_data where
  "ex_req_a = \<lparr>new_req_id = ''a'', new_prompt_token_ids = [11, 12, 13, 14, 15],
               new_sampling_params = Some \<lparr>max_tokens = 6\<rparr>\<rparr>"

definition ex_req_b :: new_request_data where
  "ex_req_b = \<lparr>new_req_id = ''b'', new_prompt_token_ids = [21, 22, 23],
               new_sampling_params = Some \<lparr>max_tokens = 2\<rparr>\<rparr>"

definition ex_req_e :: new_request_data where
  "ex_req_e = \<lparr>new_req_id = ''e'', new_prompt_token_ids = [],
               new_sampling_params = Some \<lparr>max_tokens = 6\<rparr>\<rparr>"

definition ex_state ::
  "int list \<Rightarrow> (string \<times> int list) list \<Rightarrow> (string \<times> int) list \<Rightarrow> int
     \<Rightarrow> (string \<times> cached_request_state) list \<Rightarrow> bool list \<Rightarrow> runner" where
  "ex_state pool tables ledger cur reqs indices =
     \<lparr>block_size = 4, pad_token_id = 0, max_num_reqs = 4, n_blocks = 8,
      block_pool = pool, req_ids2blocks = tables, req_ids2reserved_blocks = ledger,
      tkv = cur, requests = reqs, input_batch = map fst reqs, model_indices = indices,
      is_driver_worker = True\<rparr>"

definition ex_state_a :: "int list \<Rightarrow> int \<Rightarrow> cached_request_state" where
  "ex_state_a out lp =
     \<lparr>req_id = ''a'', prompt_token_ids = [11, 12, 13, 14, 15], output_token_ids = out,
      left_padding = lp\<rparr>"

definition ex_state_b :: "int list \<Rightarrow> int \<Rightarrow> cached_request_state" where
  "ex_state_b out lp =
     \<lparr>req_id = ''b'', prompt_token_ids = [21, 22, 23], output_token_ids = out,
      left_padding = lp\<rparr>"

definition ex_after_a :: runner where
  "ex_after_a =
     ex_state [2, 3, 4, 5, 6, 7] [(''a'', [0, 1])] [(''a'', 4)] 8
       [(''a'', ex_state_a [] 3)] [True]"

definition ex_inputs_a :: model_forward_inputs where
  "ex_inputs_a =
     \<lparr>input_tokens = [[0, 0, 0, 11, 12, 13, 14, 15]],
      input_positions = [[0, 0, 0, 0, 1, 2, 3, 4]],
      current_tkv_mask = None, left_padded_prompt_mask = None, block_table = None,
      slot_mapping = [[0, 1, 2, 3, 4, 5, 6, 7]], is_prompt = True\<rparr>"

definition ex_sampled_a :: runner where
  "ex_sampled_a =
     ex_state [2, 3, 4, 5, 6, 7] [(''a'', [0, 1])] [(''a'', 4)] 8
       [(''a'', ex_state_a [7] 3)] [True]"

definition ex_crd_a :: cached_request_data where
  "ex_crd_a = \<lparr>req_ids = [''a''], num_computed_tokens = [5], new_token_ids = [[7]]\<rparr>"

definition ex_after_decode :: runner where
  "ex_after_decode =
     ex_state [3, 4, 5, 6, 7] [(''a'', [0, 1, 2])] [(''a'', 4)] 9
       [(''a'', ex_state_a [7] 3)] [True, False]"

definition ex_inputs_decode :: model_forward_inputs where
  "ex_inputs_decode =
     \<lparr>input_tokens = [[7], [7]], input_positions = [[5], [5]],
      current_tkv_mask = Some [9, 9], left_padded_prompt_mask = Some [3, 3],
      block_table = Some [[0, 1, 2], [0, 1, 2]], slot_mapping = [[8], [8]],
      is_prompt = False\<rparr>"

definition ex_after_b :: runner where
  "ex_after_b =
     ex_state [6, 7] [(''a'', [0, 1, 2]), (''b'', [3, 4, 5])] [(''a'', 4), (''b'', 3)] 9
       [(''a'', ex_state_a [7] 3), (''b'', ex_state_b [] 6)] [True]"

definition ex_inputs_b :: model_forward_inputs where
  "ex_inputs_b =
     \<lparr>input_tokens = [[0, 0, 0, 0, 0, 0, 21, 22, 23, 0, 0, 0]],
      input_positions = [[0, 0, 0, 0, 0, 0, 0, 1, 2, 0, 0, 0]],
      current_tkv_mask = None, left_padded_prompt_mask = None, block_table = None,
      slot_mapping = [[12, 13, 14, 15, 16, 17, 18, 19, 20, 21, 22, 23]],
      is_prompt = True\<rparr>"

definition ex_finish_a :: scheduler_output where
  "ex_finish_a =
     \<lparr>scheduled_new_reqs = [],
      scheduled_cached_reqs = \<lparr>req_ids = [], num_computed_tokens = [], new_token_ids = []\<rparr>,
      finished_req_ids = [''a''], total_num_scheduled_tokens = 0\<rparr>"

definition ex_after_finish_a :: runner where
  "ex_after_finish_a =
     ex_state [6, 7, 0, 1, 2] [(''b'', [3, 4, 5])] [(''b'', 3)] 9
       [(''b'', ex_state_b [] 6)] [True]"

definition ex_after_reclaim :: runner where
  "ex_after_reclaim =
     ex_state [6, 7, 0, 1, 2, 3] [(''b'', [4, 5])] [(''b'', 2)] 5
       [(''b'', ex_state_b [] 2)] [True]"

definition ex_after_e :: runner where
  "ex_after_e =
     ex_state [0, 1, 2, 3, 4, 5, 6, 7] [(''e'', [])] [(''e'', 2)] 0
       [(''e'', \<lparr>req_id = ''e'', prompt_token_ids = [], output_token_ids = [],
                  left_padding = 0\<rparr>)] [True]"

definition ex_inputs_e :: model_forward_inputs where
  "ex_inputs_e =
     \<lparr>input_tokens = [[]], input_positions = [[]],
      current_tkv_mask = None, left_padded_prompt_mask = None, block_table = None,
      slot_mapping = [[]], is_prompt = True\<rparr>"

definition ex_finish_e :: scheduler_output where
  "ex_finish_e =
     \<lparr>scheduled_new_reqs = [],
      scheduled_cached_reqs = \<lparr>req_ids = [], num_computed_tokens = [], new_token_ids = []\<rparr>,
      finished_req_ids = [''e''], total_num_scheduled_tokens = 0\<rparr>"

definition ex_after_finish_e :: runner where
  "ex_after_finish_e = ex_state [0, 1, 2, 3, 4, 5, 6, 7] [] [(''e'', 2)] 0 [] [True]"

text \<open>A sampler for the steps that never reach the forward pass.\<close>

definition no_sample :: "model_forward_inputs \<Rightarrow> bool list \<Rightarrow> int list list" where
  "no_sample model_input indices = []"

text \<open>
  The decode step of the worked run as a whole step: the scheduler output, a sampler
  that gives token 8 for the first row and token 99 for the second, and the state after
  the step.
\<close>

definition ex_decode_step :: scheduler_output where
  "ex_decode_step =
     \<lparr>scheduled_new_reqs = [], scheduled_cached_reqs = ex_crd_a,
      finished_req_ids = [], total_num_scheduled_tokens = 1\<rparr>"

definition ex_sample :: "model_forward_inputs \<Rightarrow> bool list \<Rightarrow> int list list" where
  "ex_sample model_input indices = [[8], [99]]"

definition ex_after_step :: runner where
  "ex_after_step =
     ex_state [3, 4, 5, 6, 7] [(''a'', [0, 1, 2])] [(''a'', 4)] 9
       [(''a'', ex_state_a [7, 8] 3)] [True, False]"



section \<open>Properties\<close>

subsection \<open>The ceiling of a float quotient\<close>

lemma round_half_even_ge: "of_int K \<le> y \<Longrightarrow> K \<le> round_half_even y"
proof -
  assume "of_int K \<le> y"
  then have "K \<le> \<lfloor>y\<rfloor>" by (simp add: le_floor_iff)
  then show ?thesis by (auto simp: round_half_even_def Let_def)
qed

lemma round_half_even_le: "y \<le> of_int K \<Longrightarrow> round_half_even y \<le> K"
proof -
  assume y: "y \<le> of_int K"
  then have f: "\<lfloor>y\<rfloor> \<le> K" by (simp add: floor_le_iff)
  show ?thesis
  proof (cases "\<lfloor>y\<rfloor> = K")
    case True
    with y have "y - of_int \<lfloor>y\<rfloor> \<le> 0" by simp
    then have "y - of_int \<lfloor>y\<rfloor> < 1 / 2" by linarith
    with True show ?thesis by (simp add: round_half_even_def Let_def)
  next
    case False
    with f have "\<lfloor>y\<rfloor> + 1 \<le> K" by simp
    then show ?thesis by (auto simp: round_half_even_def Let_def)
  qed
qed

lemma round_half_even_above: "of_int K + 1 / 2 < y \<Longrightarrow> K + 1 \<le> round_half_even y"
proof -
  assume y: "of_int K + 1 / 2 < y"
  then have "of_int K \<le> y" by linarith
  then have f: "K \<le> \<lfloor>y\<rfloor>" by (simp add: le_floor_iff)
  show ?thesis
  proof (cases "\<lfloor>y\<rfloor> = K")
    case True
    with y have "1 / 2 < y - of_int \<lfloor>y\<rfloor>" by simp
    with True show ?thesis by (simp add: round_half_even_def Let_def)
  next
    case False
    with f have "K + 1 \<le> \<lfloor>y\<rfloor>" by simp
    then show ?thesis by (auto simp: round_half_even_def Let_def)
  qed
qed

lemma round_half_even_below: "y < of_int K - 1 / 2 \<Longrightarrow> round_half_even y \<le> K - 1"
proof -
  assume y: "y < of_int K - 1 / 2"
  then have "y < of_int K" by linarith
  then have f: "\<lfloor>y\<rfloor> \<le> K - 1" by (simp add: floor_less_iff)
  show ?thesis
  proof (cases "\<lfloor>y\<rfloor> = K - 1")
    case True
    with y have "y - of_int \<lfloor>y\<rfloor> < 1 / 2" by simp
    with True show ?thesis by (simp add: round_half_even_def Let_def)
  next
    case False
    with f have "\<lfloor>y\<rfloor> + 1 \<le> K - 1" by simp
    then show ?thesis by (auto simp: round_half_even_def Let_def)
  qed
qed

lemma scale_up_spec:
  assumes "y < 2 ^ 53"
  shows "y * 2 ^ scale_up fuel y < 2 ^ 53
         \<and> (scale_up fuel y = fuel \<or> 2 ^ 53 \<le> y * 2 ^ (scale_up fuel y + 1))"
  using assms
proof (induction fuel arbitrary: y)
  case 0
  then show ?case by simp
next
  case (Suc fuel)
  show ?case
  proof (cases "y * 2 < 2 ^ 53")
    case True
    from Suc.IH[OF True] True show ?thesis by (simp add: mult.assoc)
  next
    case False
    with Suc.prems show ?thesis by simp
  qed
qed


lemma ceiling_of_rounded_pos:
  fixes a :: rat
  assumes b: "0 < b" and n: "0 < n" and a: "a = of_int n / of_int b"
    and F: "of_int b < (2::rat) * 2 ^ t"
  shows "\<lceil>of_int (round_half_even (a * 2 ^ t)) / (2::rat) ^ t\<rceil> = \<lceil>a\<rceil>"
proof -
  define k where "k = \<lceil>a\<rceil>"
  define M where "M = round_half_even (a * 2 ^ t)"
  have bp: "0 < (of_int b :: rat)" using b by simp
  have p: "0 < (2::rat) ^ t" by simp
  have ak: "a \<le> of_int k" and ka: "of_int k - 1 < a"
    unfolding k_def by linarith+
  from ak have "a * 2 ^ t \<le> of_int (k * 2 ^ t)" by simp
  then have "M \<le> k * 2 ^ t" unfolding M_def by (rule round_half_even_le)
  then have "(of_int M :: rat) \<le> of_int (k * 2 ^ t)" by (simp only: of_int_le_iff)
  then have up: "(of_int M :: rat) / 2 ^ t \<le> of_int k"
    using p by (simp add: divide_le_eq)
  from ka have "of_int (k - 1) * of_int b < (of_int n :: rat)"
    using bp by (simp add: a pos_less_divide_eq)
  then have "(of_int ((k - 1) * b) :: rat) < of_int n" by simp
  then have "(k - 1) * b < n" by (simp only: of_int_less_iff)
  then have "(k - 1) * b + 1 \<le> n" by simp
  then have "(of_int ((k - 1) * b + 1) :: rat) \<le> of_int n" by (simp only: of_int_le_iff)
  then have "(of_int (k - 1) :: rat) * of_int b + 1 \<le> of_int n" by simp
  then have "(of_int (k - 1) * of_int b + 1) / of_int b \<le> a"
    using bp by (simp add: a divide_le_cancel)
  then have q1: "of_int (k - 1) + 1 / of_int b \<le> a"
    using bp by (simp add: add_divide_distrib)
  from F bp have h: "1 / 2 < 2 ^ t / (of_int b :: rat)"
    by (simp add: pos_less_divide_eq)
  from q1 have "(of_int (k - 1) + 1 / of_int b) * 2 ^ t \<le> a * 2 ^ t"
    using p by (simp only: mult_le_cancel_right_pos)
  then have "of_int (k - 1) * 2 ^ t + 2 ^ t / of_int b \<le> a * 2 ^ t"
    by (simp add: algebra_simps)
  moreover have "(of_int ((k - 1) * 2 ^ t) :: rat) = of_int (k - 1) * 2 ^ t" by simp
  ultimately have "of_int ((k - 1) * 2 ^ t) + 1 / 2 < a * 2 ^ t" using h by linarith
  then have "(k - 1) * 2 ^ t + 1 \<le> M" unfolding M_def by (rule round_half_even_above)
  then have "(of_int ((k - 1) * 2 ^ t + 1) :: rat) \<le> of_int M" by (simp only: of_int_le_iff)
  then have "(of_int k - 1) * 2 ^ t < (of_int M :: rat)" by simp
  then have lo: "of_int k - 1 < (of_int M :: rat) / 2 ^ t"
    using p by (simp add: pos_less_divide_eq)
  from lo up have "\<lceil>(of_int M :: rat) / 2 ^ t\<rceil> = k" by (rule ceiling_unique)
  then show ?thesis by (simp add: M_def k_def)
qed

lemma floor_of_rounded_pos:
  fixes a :: rat
  assumes b: "0 < b" and n: "0 < n" and a: "a = of_int n / of_int b"
    and F: "of_int b < (2::rat) * 2 ^ t"
  shows "\<lfloor>of_int (round_half_even (a * 2 ^ t)) / (2::rat) ^ t\<rfloor> = \<lfloor>a\<rfloor>"
proof -
  define f where "f = \<lfloor>a\<rfloor>"
  define M where "M = round_half_even (a * 2 ^ t)"
  have bp: "0 < (of_int b :: rat)" using b by simp
  have p: "0 < (2::rat) ^ t" by simp
  have fa: "of_int f \<le> a" and af: "a < of_int f + 1"
    unfolding f_def by linarith+
  from fa have "of_int (f * 2 ^ t) \<le> a * 2 ^ t" by simp
  then have "f * 2 ^ t \<le> M" unfolding M_def by (rule round_half_even_ge)
  then have "(of_int (f * 2 ^ t) :: rat) \<le> of_int M" by (simp only: of_int_le_iff)
  then have lo: "of_int f \<le> (of_int M :: rat) / 2 ^ t"
    using p by (simp add: pos_le_divide_eq)
  from af have "(of_int n :: rat) < of_int (f + 1) * of_int b"
    using bp by (simp add: a pos_divide_less_eq)
  then have "(of_int n :: rat) < of_int ((f + 1) * b)" by simp
  then have "n < (f + 1) * b" by (simp only: of_int_less_iff)
  then have "n \<le> (f + 1) * b - 1" by simp
  then have "(of_int n :: rat) \<le> of_int ((f + 1) * b - 1)" by (simp only: of_int_le_iff)
  then have "(of_int n :: rat) \<le> of_int (f + 1) * of_int b - 1" by simp
  then have "a \<le> (of_int (f + 1) * of_int b - 1) / of_int b"
    using bp by (simp add: a divide_le_cancel)
  then have q1: "a \<le> of_int (f + 1) - 1 / of_int b"
    using bp by (simp add: diff_divide_distrib)
  from F bp have h: "1 / 2 < 2 ^ t / (of_int b :: rat)"
    by (simp add: pos_less_divide_eq)
  from q1 have "a * 2 ^ t \<le> (of_int (f + 1) - 1 / of_int b) * 2 ^ t"
    using p by (simp only: mult_le_cancel_right_pos)
  then have "a * 2 ^ t \<le> of_int (f + 1) * 2 ^ t - 2 ^ t / of_int b"
    by (simp add: algebra_simps)
  moreover have "(of_int ((f + 1) * 2 ^ t) :: rat) = of_int (f + 1) * 2 ^ t" by simp
  ultimately have "a * 2 ^ t < of_int ((f + 1) * 2 ^ t) - 1 / 2" using h by linarith
  then have "M \<le> (f + 1) * 2 ^ t - 1" unfolding M_def by (rule round_half_even_below)
  then have "(of_int M :: rat) \<le> of_int ((f + 1) * 2 ^ t - 1)" by (simp only: of_int_le_iff)
  then have "(of_int M :: rat) < (of_int f + 1) * 2 ^ t" by simp
  then have up: "(of_int M :: rat) / 2 ^ t < of_int f + 1"
    using p by (simp add: pos_divide_less_eq)
  from lo up have "\<lfloor>(of_int M :: rat) / 2 ^ t\<rfloor> = f" by (rule floor_unique)
  then show ?thesis by (simp add: M_def f_def)
qed


text \<open>
  Within the range of exact floats \<^verbatim>\<open>math.ceil(n / b)\<close> is the ceiling of the exact
  quotient, the value the model of the runner works with.
\<close>

lemma math_ceil_exact:
  assumes "0 < b" and "b < 2 ^ 53" and "\<bar>n\<bar> < 2 ^ 53"
  shows "math_ceil_div n b = Inr (ceil_div n b)"
proof -
  define q :: rat where "q = of_int n / of_int b"
  define a where "a = \<bar>q\<bar>"
  define t where "t = scale_up 1074 a"
  define M where "M = round_half_even (a * 2 ^ t)"
  have bp: "0 < (of_int b :: rat)" using assms(1) by simp
  have b1: "1 \<le> (of_int b :: rat)" using assms(1) by simp
  have a_eq: "a = of_int \<bar>n\<bar> / of_int b"
    using bp by (simp add: a_def q_def abs_mult)
  have n53: "(of_int \<bar>n\<bar> :: rat) < 2 ^ 53"
  proof -
    from assms(3) have "(of_int \<bar>n\<bar> :: rat) < of_int (2 ^ 53)" by (simp only: of_int_less_iff)
    then show ?thesis by simp
  qed
  have b53: "(of_int b :: rat) < 2 ^ 53"
  proof -
    from assms(2) have "(of_int b :: rat) < of_int (2 ^ 53)" by (simp only: of_int_less_iff)
    then show ?thesis by simp
  qed
  have "(of_int \<bar>n\<bar> :: rat) * 1 \<le> of_int \<bar>n\<bar> * of_int b"
    using b1 by (intro mult_left_mono) simp_all
  then have "a \<le> of_int \<bar>n\<bar>" using bp by (simp add: a_eq pos_divide_le_eq)
  with n53 have a_lt: "a < 2 ^ 53" by linarith
  have td: "to_double q = Inr (sgn q * of_int M / 2 ^ t)"
    using a_lt by (simp add: to_double_def Let_def a_def[symmetric] t_def M_def)
  have cd: "ceil_div n b = \<lceil>q\<rceil>"
    by (simp add: ceil_div_def q_def ceiling_divide_eq_div)
  have F: "of_int b < (2::rat) * 2 ^ t" if "n \<noteq> 0"
  proof -
    from scale_up_spec[OF a_lt, of 1074]
    consider "t = 1074" | "(2::rat) ^ 53 \<le> a * 2 ^ (t + 1)" unfolding t_def by blast
    then show ?thesis
    proof cases
      case 1
      have "(2::rat) ^ 53 \<le> 2 ^ 1075" by (rule power_increasing) simp_all
      with b53 1 show ?thesis by simp
    next
      case 2
      then have "(2::rat) ^ 53 \<le> of_int \<bar>n\<bar> * (2 * 2 ^ t) / of_int b" by (simp add: a_eq)
      then have 3: "(2::rat) ^ 53 * of_int b \<le> of_int \<bar>n\<bar> * (2 * 2 ^ t)"
        using bp by (simp add: pos_le_divide_eq)
      have "(of_int \<bar>n\<bar> :: rat) * (2 * 2 ^ t) < 2 ^ 53 * (2 * 2 ^ t)"
        using n53 by (intro mult_strict_right_mono) simp_all
      with 3 have "(2::rat) ^ 53 * of_int b < 2 ^ 53 * (2 * 2 ^ t)" by linarith
      then show ?thesis by (simp only: mult_less_cancel_left_pos zero_less_power zero_less_numeral)
    qed
  qed
  have "\<lceil>sgn q * of_int M / 2 ^ t\<rceil> = \<lceil>q\<rceil>"
  proof -
    consider "n = 0" | "0 < n" | "n < 0" by linarith
    then show ?thesis
    proof cases
      case 1
      then have "q = 0" by (simp add: q_def)
      then show ?thesis by simp
    next
      case 2
      with bp have qp: "0 < q" by (simp add: q_def)
      then have aq: "a = q" by (simp add: a_def)
      from 2 have F': "of_int b < (2::rat) * 2 ^ t" by (intro F) simp
      from ceiling_of_rounded_pos[OF assms(1) 2 _ F', of a] aq
      have "\<lceil>of_int M / (2::rat) ^ t\<rceil> = \<lceil>q\<rceil>" by (simp add: q_def M_def)
      with qp show ?thesis by simp
    next
      case 3
      with bp have qn: "q < 0" by (simp add: q_def divide_neg_pos)
      then have aq: "a = - q" by (simp add: a_def)
      then have a': "a = of_int (- n) / of_int b" by (simp add: q_def)
      from 3 have n': "0 < - n" by simp
      from 3 have F': "of_int b < (2::rat) * 2 ^ t" by (intro F) simp
      from floor_of_rounded_pos[OF assms(1) n' a' F']
      have "\<lfloor>of_int M / (2::rat) ^ t\<rfloor> = \<lfloor>a\<rfloor>" by (simp add: M_def)
      then have "\<lceil>- (of_int M / (2::rat) ^ t)\<rceil> = \<lceil>- a\<rceil>" by (simp only: ceiling_minus)
      with qn aq show ?thesis by simp
    qed
  qed
  with td cd assms(1) show ?thesis
    by (simp add: math_ceil_div_def true_div_def q_def)
qed

text \<open>
  Beyond that range the two differ: the quotient of \<open>2 ^ 53 + 9\<close> by 4 is
  \<open>2251799813685250.25\<close>, and the nearest double is \<open>2251799813685250\<close>.
\<close>

lemma math_ceil_rounded:
  "math_ceil_div (2 ^ 53 + 9) 4 = Inr 2251799813685250
   \<and> ceil_div (2 ^ 53 + 9) 4 = 2251799813685251"
  by code_simp


lemma math_ceil_div_error:
  "math_ceil_div n b = Inl e \<Longrightarrow> e = ZeroDivisionError \<or> e = OverflowError"
  by (auto simp: math_ceil_div_def true_div_def to_double_def Let_def
      split: sum.splits if_splits option.splits)

subsection \<open>The worked run, step by step\<close>

lemma ex_prefill_a: "prepare_prompt ex_fresh [ex_req_a] = Inr (ex_after_a, ex_inputs_a)"
  by code_simp

lemma ex_sample_a:
  "for_each (append_sampled [[7]]) (enumerate_list [''a'']) ex_after_a = Inr ex_sampled_a"
  by code_simp

lemma ex_decode: "prepare_decode ex_sampled_a ex_crd_a = Inr (ex_after_decode, ex_inputs_decode)"
  by code_simp

lemma ex_prefill_b: "prepare_prompt ex_after_decode [ex_req_b] = Inr (ex_after_b, ex_inputs_b)"
  by code_simp

lemma ex_finished_a: "update_states ex_after_b ex_finish_a = Inr ex_after_finish_a"
  by code_simp

lemma ex_reclaim: "reduce_left_padding ex_after_finish_a = Inr ex_after_reclaim"
  by code_simp

lemma ex_reachable_a: "reachable ex_after_a"
proof -
  have "reachable ex_fresh" unfolding ex_fresh_def by (rule reachable.fresh)
  moreover have "new_req_id ex_req_a \<notin> fst ` set (req_ids2blocks ex_fresh)"
    by (simp add: ex_fresh_def init_runner_def set_blocks_def)
  ultimately show ?thesis using ex_prefill_a by (rule reachable.prefill)
qed

lemma ex_reachable_decode: "reachable ex_after_decode"
proof -
  from ex_reachable_a ex_sample_a have "reachable ex_sampled_a" by (rule reachable.sampled)
  then show ?thesis using ex_decode by (rule reachable.decode)
qed

lemma ex_reachable_b: "reachable ex_after_b"
proof -
  have "new_req_id ex_req_b \<notin> fst ` set (req_ids2blocks ex_after_decode)"
    by (simp add: ex_after_decode_def ex_state_def ex_req_b_def)
  with ex_reachable_decode show ?thesis using ex_prefill_b by (rule reachable.prefill)
qed

lemma ex_reachable_finish_a: "reachable ex_after_finish_a"
  using ex_reachable_b ex_finished_a by (rule reachable.finished)

subsection \<open>Block conservation\<close>

lemma for_each_invariant:
  assumes "for_each body xs s = Inr s'" and "P s"
    and "\<And>x t t'. x \<in> set xs \<Longrightarrow> body x t = Inr t' \<Longrightarrow> P t \<Longrightarrow> P t'"
  shows "P s'"
  using assms
proof (induction xs arbitrary: s)
  case Nil
  then show ?case by simp
next
  case (Cons x xs)
  from Cons.prems(1) obtain t where b: "body x s = Inr t" and r: "for_each body xs t = Inr s'"
    by (auto split: sum.splits)
  from Cons.prems(3)[OF _ b Cons.prems(2)] have t: "P t" by simp
  show ?case
  proof (rule Cons.IH[OF r t])
    fix y u u'
    assume "y \<in> set xs" and "body y u = Inr u'" and "P u"
    then show "P u'" using Cons.prems(3)[of y u u'] by simp
  qed
qed

lemma update_fresh: "k \<notin> fst ` set al \<Longrightarrow> AList.update k v al = al @ [(k, v)]"
  by (induction al) auto

lemma mset_concat_update:
  "map_of al k = Some old \<Longrightarrow>
   mset (concat (map snd (AList.update k v al))) + mset old = mset (concat (map snd al)) + mset v"
  by (induction al) (auto split: if_splits)

lemma mset_concat_delete:
  "distinct (map fst al) \<Longrightarrow> map_of al k = Some old \<Longrightarrow>
   mset (concat (map snd (AList.delete k al))) + mset old = mset (concat (map snd al))"
proof (induction al)
  case Nil
  then show ?case by simp
next
  case (Cons p al)
  show ?case
  proof (cases "fst p = k")
    case True
    with Cons.prems have "k \<notin> fst ` set al" and "snd p = old" by auto
    then show ?thesis using True by (simp add: delete_notin_dom delete_id)
  next
    case False
    with Cons show ?thesis by (auto split: if_splits)
  qed
qed

lemma fill_slots_pops:
  "fill_slots bs ps pool bl sl bn = Inr (pool', bl', sl') \<Longrightarrow>
   \<exists>popped. pool = popped @ pool' \<and> bl' = bl @ popped"
proof (induction bs ps pool bl sl bn rule: fill_slots.induct)
  case (1 bs pool blocks slots block_number)
  then show ?case by simp
next
  case (2 bs pos_i ps pool blocks slots block_number)
  show ?case
  proof (cases "pos_i mod bs = 0")
    case True
    with "2.prems" obtain b rest where p: "pool = b # rest"
      by (cases pool) auto
    with True "2.prems" "2.IH"(1)[OF True p] obtain popped where
      "rest = popped @ pool'" "bl' = (blocks @ [b]) @ popped" by auto
    with p show ?thesis by (intro exI[of _ "b # popped"]) simp
  next
    case False
    with "2.prems" "2.IH"(2)[OF False] show ?thesis by auto
  qed
qed

lemma prepare_prompt_conserved:
  assumes "conserved s" and "new_req_id r \<notin> fst ` set (req_ids2blocks s)"
    and "prepare_prompt s [r] = Inr (s', inp)"
  shows "conserved s'"
proof -
  from assms(3) obtain pool' blocks slots bp where
    f: "fill_slots (block_size s) (map int [0..<nat bp]) (block_pool s) [] [] 0 = Inr (pool', blocks, slots)"
    and p: "block_pool s' = pool'" and t: "req_ids2blocks s' = AList.update (new_req_id r) blocks (req_ids2blocks s)"
    and n: "n_blocks s' = n_blocks s"
    by (auto simp: prepare_prompt_def Let_def split: sum.splits option.splits prod.splits if_splits)
  from fill_slots_pops[OF f] have "block_pool s = blocks @ pool'" by auto
  with assms(1,2) p t n show ?thesis
    by (simp add: conserved_def held_def update_fresh ac_simps)
qed

lemma conserved_move:
  assumes "conserved s" and "map_of (req_ids2blocks s) k = Some old"
    and "mset pool' + mset new = mset (block_pool s) + mset old"
    and "block_pool s' = pool'" and "n_blocks s' = n_blocks s"
    and "req_ids2blocks s' = AList.update k new (req_ids2blocks s)"
  shows "conserved s'"
proof -
  let ?h = "mset (concat (map snd (AList.update k new (req_ids2blocks s))))"
  from mset_concat_update[OF assms(2), of new]
  have "?h + mset old = mset (held s) + mset new" by (simp add: held_def)
  then have "mset pool' + ?h + mset old = mset pool' + (mset (held s) + mset new)"
    by (simp add: add.assoc)
  also have "\<dots> = (mset pool' + mset new) + mset (held s)"
    by (simp add: ac_simps)
  also have "\<dots> = (mset (block_pool s) + mset old) + mset (held s)"
    by (simp only: assms(3))
  also have "\<dots> = mset (block_pool s) + mset (held s) + mset old"
    by (simp add: ac_simps)
  finally have "mset pool' + ?h = mset (block_pool s) + mset (held s)" by simp
  with assms(1,4,5,6) show ?thesis
    by (simp add: conserved_def held_def distinct_update)
qed

lemma conserved_frame:
  assumes "conserved s" and "block_pool s' = block_pool s" and "n_blocks s' = n_blocks s"
    and "req_ids2blocks s' = req_ids2blocks s"
  shows "conserved s'"
  using assms by (simp add: conserved_def held_def)

lemma decode_req_conserved:
  assumes "decode_req crd rid (s, acc) = Inr (s', acc')" and "conserved s"
  shows "conserved s'"
proof -
  from assms(1) obtain blocks pool' blocks' where
    b: "map_of (req_ids2blocks s) rid = Some blocks"
    and a: "add_block_if_needed (tkv s) (block_size s) (block_pool s) blocks = Inr (pool', blocks')"
    and e: "block_pool s' = pool'" "n_blocks s' = n_blocks s"
           "req_ids2blocks s' = AList.update rid blocks' (req_ids2blocks s)"
    by (auto simp: decode_req_def Let_def split: option.splits if_splits sum.splits prod.splits)
  from a have "mset pool' + mset blocks' = mset (block_pool s) + mset blocks"
    by (auto simp: add_block_if_needed_def split: if_splits list.splits)
  from conserved_move[OF assms(2) b this e] show ?thesis .
qed

lemma prepare_decode_conserved:
  assumes "prepare_decode s crd = Inr (s', inp)" and "conserved s"
  shows "conserved s'"
proof -
  from assms(1) obtain s1 acc where
    l: "for_each (decode_req crd) (sorted_requests_ids (input_batch s)) (s, empty_decode_lists)
          = Inr (s1, acc)"
    and t: "block_pool s' = block_pool s1" "n_blocks s' = n_blocks s1"
           "req_ids2blocks s' = req_ids2blocks s1"
    by (auto simp: prepare_decode_def Let_def split: if_splits sum.splits prod.splits)
  have "conserved (fst (s1, acc))"
  proof (rule for_each_invariant[OF l, where P = "\<lambda>sa. conserved (fst sa)"])
    show "conserved (fst (s, empty_decode_lists))" using assms(2) by simp
  next
    fix x t t'
    assume "decode_req crd x t = Inr t'" and "conserved (fst t)"
    then show "conserved (fst t')"
      using decode_req_conserved[of crd x "fst t" "snd t" "fst t'" "snd t'"] by simp
  qed
  then show ?thesis using t conserved_frame by simp
qed

lemma free_padded_block_conserved:
  assumes "free_padded_block rid s = Inr s'" and "conserved s"
  shows "conserved s'"
proof -
  from assms(1) obtain freed rest where
    b: "map_of (req_ids2blocks s) rid = Some (freed # rest)"
    and e: "block_pool s' = block_pool s @ [freed]" "n_blocks s' = n_blocks s"
           "req_ids2blocks s' = AList.update rid rest (req_ids2blocks s)"
    by (auto simp: free_padded_block_def split: option.splits list.splits)
  have "mset (block_pool s @ [freed]) + mset rest = mset (block_pool s) + mset (freed # rest)"
    by simp
  from conserved_move[OF assms(2) b this e] show ?thesis .
qed

lemma reduce_req_conserved:
  assumes "reduce_req offset n k s = Inr s'" and "conserved s"
  shows "conserved s'"
proof -
  from assms(1) obtain req where
    l: "for_each (\<lambda>_. free_padded_block (req_id req)) (replicate (nat n) ())
          (s\<lparr>requests := AList.update k (req\<lparr>left_padding := left_padding req - offset\<rparr>)
                            (requests s)\<rparr>) = Inr s'"
    by (auto simp: reduce_req_def split: option.splits)
  show ?thesis
  proof (rule for_each_invariant[OF l, where P = conserved])
    show "conserved (s\<lparr>requests := AList.update k (req\<lparr>left_padding := left_padding req - offset\<rparr>)
                            (requests s)\<rparr>)"
      using assms(2) by (simp add: conserved_def held_def)
  qed (rule free_padded_block_conserved)
qed

lemma reduce_left_padding_conserved:
  assumes "reduce_left_padding s = Inr s'" and "conserved s"
  shows "conserved s'"
proof (cases "length (requests s) = 0")
  case True
  with assms show ?thesis by (simp add: reduce_left_padding_def)
next
  case False
  define n where "n = min_list (map (left_padding \<circ> snd) (requests s)) div block_size s"
  define offset where "offset = n * block_size s"
  from assms(1) False obtain s1 where
    l: "(if offset > 0 then for_each (reduce_req offset n) (map fst (requests s)) s else Inr s)
          = Inr s1"
    and e: "s' = s1\<lparr>tkv := tkv s1 - offset\<rparr>"
    by (auto simp: reduce_left_padding_def Let_def offset_def n_def
        split: if_splits sum.splits)
  have "conserved s1"
  proof (cases "offset > 0")
    case True
    with l have "for_each (reduce_req offset n) (map fst (requests s)) s = Inr s1" by simp
    from for_each_invariant[OF this, where P = conserved, OF assms(2)] reduce_req_conserved
    show ?thesis by blast
  next
    case False
    with l assms(2) show ?thesis by simp
  qed
  with e show ?thesis by (simp add: conserved_def held_def)
qed

lemma free_request_conserved:
  assumes "free_request rid s = Inr s'" and "conserved s"
  shows "conserved s'"
proof (cases "map_of (req_ids2blocks s) rid")
  case None
  with assms show ?thesis by (simp add: free_request_def)
next
  case (Some blocks)
  from assms(2) have d: "distinct (map fst (req_ids2blocks s))" by (simp add: conserved_def)
  from mset_concat_delete[OF d Some]
  have h: "mset (concat (map snd (AList.delete rid (req_ids2blocks s)))) + mset blocks
             = mset (held s)" by (simp add: held_def)
  from assms(1) Some have e: "req_ids2blocks s' = AList.delete rid (req_ids2blocks s)"
    "n_blocks s' = n_blocks s"
    "block_pool s' = (if blocks = [] then block_pool s else block_pool s @ blocks)"
    by (auto simp: free_request_def Let_def split: if_splits option.splits)
  from e(3) have "mset (block_pool s') = mset (block_pool s) + mset blocks" by simp
  then have "mset (block_pool s') + mset (held s')
               = mset (block_pool s)
                 + (mset (concat (map snd (AList.delete rid (req_ids2blocks s)))) + mset blocks)"
    by (simp add: held_def e(1) ac_simps)
  also have "\<dots> = mset (block_pool s) + mset (held s)" by (simp only: h)
  finally show ?thesis using assms(2) e(1,2)
    by (simp add: conserved_def distinct_delete)
qed

lemma update_cached_req_frame:
  "update_cached_req crd ir s = Inr s' \<Longrightarrow>
   block_pool s' = block_pool s \<and> n_blocks s' = n_blocks s \<and>
   req_ids2blocks s' = req_ids2blocks s"
  by (auto simp: update_cached_req_def Let_def split: option.splits if_splits sum.splits)

lemma append_sampled_frame:
  "append_sampled sampled_ids ir s = Inr s' \<Longrightarrow>
   block_pool s' = block_pool s \<and> n_blocks s' = n_blocks s \<and>
   req_ids2blocks s' = req_ids2blocks s"
  by (auto simp: append_sampled_def Let_def split: option.splits if_splits)

lemma fold_remove_finished_frame:
  "block_pool (fold remove_finished_req ids s) = block_pool s \<and>
   n_blocks (fold remove_finished_req ids s) = n_blocks s \<and>
   req_ids2blocks (fold remove_finished_req ids s) = req_ids2blocks s"
  by (induction ids arbitrary: s) (simp_all add: remove_finished_req_def)

lemma update_states_conserved:
  assumes "update_states s so = Inr s'" and "conserved s"
  shows "conserved s'"
proof -
  from assms(1) obtain s1 where
    u: "for_each (update_cached_req (scheduled_cached_reqs so))
          (enumerate_list (req_ids (scheduled_cached_reqs so))) s = Inr s1"
    and f: "for_each free_request (finished_req_ids so)
              (fold remove_finished_req (finished_req_ids so) s1) = Inr s'"
    by (auto simp: update_states_def Let_def split: sum.splits)
  have "conserved s1"
    by (rule for_each_invariant[OF u, where P = conserved, OF assms(2)])
       (blast dest: update_cached_req_frame intro: conserved_frame)
  then have "conserved (fold remove_finished_req (finished_req_ids so) s1)"
    using fold_remove_finished_frame conserved_frame by blast
  from for_each_invariant[OF f, where P = conserved, OF this] free_request_conserved
  show ?thesis by blast
qed

lemma init_runner_conserved: "conserved (init_runner bs pad cap driver ov n)"
  by (simp add: conserved_def held_def init_runner_def set_blocks_def Let_def)

lemma reachable_conserved: "reachable s \<Longrightarrow> conserved s"
proof (induction rule: reachable.induct)
  case (fresh bs pad cap driver num_blocks_override num_blocks)
  show ?case by (rule init_runner_conserved)
next
  case (prefill s r s' inp)
  then show ?case using prepare_prompt_conserved by blast
next
  case (decode s crd s' inp)
  then show ?case using prepare_decode_conserved by blast
next
  case (reclaim s s')
  then show ?case using reduce_left_padding_conserved by blast
next
  case (finished s so s')
  then show ?case using update_states_conserved by blast
next
  case (sampled s sampled_ids irs s')
  show ?case
    by (rule for_each_invariant[OF sampled.hyps(2), where P = conserved, OF sampled.IH])
       (blast dest: append_sampled_frame intro: conserved_frame)
qed

lemma disjoint_tables:
  "distinct (concat (map snd al)) \<Longrightarrow> r1 \<noteq> r2 \<Longrightarrow>
   map_of al r1 = Some b1 \<Longrightarrow> map_of al r2 = Some b2 \<Longrightarrow> set b1 \<inter> set b2 = {}"
proof (induction al)
  case Nil
  then show ?case by simp
next
  case (Cons p al)
  from Cons.prems(1) have d: "distinct (concat (map snd al))"
    and i: "\<And>q. q \<in> set al \<Longrightarrow> set (snd p) \<inter> set (snd q) = {}"
    by auto
  show ?case
  proof (cases "fst p = r1")
    case True
    with Cons.prems have "snd p = b1" and "(r2, b2) \<in> set al"
      by (auto dest: map_of_SomeD)
    with i[of "(r2, b2)"] show ?thesis by simp
  next
    case False
    with Cons.prems have m1: "map_of al r1 = Some b1" by simp
    show ?thesis
    proof (cases "fst p = r2")
      case True
      with Cons.prems m1 have "snd p = b2" and "(r1, b1) \<in> set al"
        by (auto dest: map_of_SomeD)
      with i[of "(r1, b1)"] show ?thesis by auto
    next
      case False
      with Cons.prems have "map_of al r2 = Some b2" by simp
      from Cons.IH[OF d Cons.prems(2) m1 this] show ?thesis .
    qed
  qed
qed

lemma conserved_counts:
  assumes "conserved s"
  shows "length (block_pool s) + sum_list (map (length \<circ> snd) (req_ids2blocks s)) = n_blocks s"
    and "distinct (block_pool s @ held s)"
proof -
  from assms have m: "mset (block_pool s @ held s) = mset (map int [0..<n_blocks s])"
    by (simp add: conserved_def)
  from mset_eq_length[OF m]
  show "length (block_pool s) + sum_list (map (length \<circ> snd) (req_ids2blocks s)) = n_blocks s"
    by (simp add: held_def length_concat comp_def)
  have "distinct (map int [0..<n_blocks s])" by (simp add: distinct_map)
  with mset_eq_imp_distinct_iff[OF m] show "distinct (block_pool s @ held s)" by simp
qed

text \<open>
  C1. Block conservation. In every state the runner reaches from a fresh pool of
  \<open>n_blocks\<close> blocks, by any sequence of prefills, decodes, left-padding reclamations,
  finished-request processing and recording of sampled tokens, the number of block ids in
  the free pool plus the numbers of blocks the resident requests hold is \<open>n_blocks\<close>;
  every resident request has one block table; no block id occurs twice among the pool
  and the tables; and two different resident requests hold no block id in common.
\<close>

theorem block_conservation:
  assumes "reachable s"
  shows "length (block_pool s) + sum_list (map (length \<circ> snd) (req_ids2blocks s)) = n_blocks s
         \<and> distinct (map fst (req_ids2blocks s))
         \<and> distinct (block_pool s @ concat (map snd (req_ids2blocks s)))
         \<and> (\<forall>r1 r2 b1 b2. r1 \<noteq> r2 \<longrightarrow> map_of (req_ids2blocks s) r1 = Some b1 \<longrightarrow>
               map_of (req_ids2blocks s) r2 = Some b2 \<longrightarrow> set b1 \<inter> set b2 = {})"
proof -
  from assms have c: "conserved s" by (rule reachable_conserved)
  from conserved_counts[OF c] have
    n: "length (block_pool s) + sum_list (map (length \<circ> snd) (req_ids2blocks s)) = n_blocks s"
    and d: "distinct (block_pool s @ concat (map snd (req_ids2blocks s)))"
    by (simp_all add: held_def)
  from d have "distinct (concat (map snd (req_ids2blocks s)))" by simp
  then have "\<forall>r1 r2 b1 b2. r1 \<noteq> r2 \<longrightarrow> map_of (req_ids2blocks s) r1 = Some b1 \<longrightarrow>
               map_of (req_ids2blocks s) r2 = Some b2 \<longrightarrow> set b1 \<inter> set b2 = {}"
    by (blast dest: disjoint_tables)
  with n d c show ?thesis by (simp add: conserved_def)
qed

theorem block_conservation_witness:
  "reachable ex_after_b
   \<and> length (block_pool ex_after_b)
       + sum_list (map (length \<circ> snd) (req_ids2blocks ex_after_b)) = 8
   \<and> map_of (req_ids2blocks ex_after_b) ''a'' = Some [0, 1, 2]
   \<and> map_of (req_ids2blocks ex_after_b) ''b'' = Some [3, 4, 5]
   \<and> set [0, 1, 2 :: int] \<inter> set [3, 4, 5] = {}"
proof -
  have n: "n_blocks ex_after_b = 8"
    and a: "map_of (req_ids2blocks ex_after_b) ''a'' = Some [0, 1, 2]"
    and b: "map_of (req_ids2blocks ex_after_b) ''b'' = Some [3, 4, 5]"
    by (simp_all add: ex_after_b_def ex_state_def)
  from block_conservation[OF ex_reachable_b] n a b ex_reachable_b show ?thesis
    by simp
qed

subsection \<open>The exposed free-block count\<close>

text \<open>
  C4, as the claim states it, fails: after the prefill of request \<open>a\<close> the pool holds six
  block ids and the runner reports four free blocks.
\<close>

theorem free_blocks_counterexample:
  "prepare_prompt ex_fresh [ex_req_a] = Inr (ex_after_a, ex_inputs_a)
   \<and> get_n_free_blocks ex_after_a = 4 \<and> length (block_pool ex_after_a) = 6"
  using ex_prefill_a by (simp add: get_n_free_blocks_def ex_after_a_def ex_state_def)

text \<open>
  C4, amended. \<^verbatim>\<open>get_n_free_blocks\<close> is \<open>n_blocks\<close> minus the sum of the reservation
  ledger: in every reachable state it is the size of the free pool plus the number of
  blocks the resident requests hold minus the number of blocks reserved for them.
\<close>

theorem free_blocks_exposed:
  assumes "reachable s"
  shows "get_n_free_blocks s
           = int (length (block_pool s))
             + int (sum_list (map (length \<circ> snd) (req_ids2blocks s)))
             - sum_list (map snd (req_ids2reserved_blocks s))"
proof -
  from assms have "conserved s" by (rule reachable_conserved)
  from conserved_counts(1)[OF this] show ?thesis
    by (simp add: get_n_free_blocks_def)
qed

theorem free_blocks_exposed_witness:
  "reachable ex_after_a \<and> get_n_free_blocks ex_after_a = 6 + 2 - 4"
  using free_blocks_exposed[OF ex_reachable_a] ex_reachable_a
  by (simp add: ex_after_a_def ex_state_def)

subsection \<open>Prefill\<close>

lemma ceil_div_ceiling: "ceil_div n b = \<lceil>real_of_int n / real_of_int b\<rceil>"
  by (simp add: ceil_div_def ceiling_divide_eq_div)

lemma fill_slots_error: "fill_slots bs ps pool bl sl bn = Inl e \<Longrightarrow> e = IndexError"
  by (induction bs ps pool bl sl bn rule: fill_slots.induct) (auto split: if_splits list.splits)

lemma prepare_prompt_reserved:
  assumes "new_sampling_params r = Some sp" and "prepare_prompt s [r] = Inr (s', inp)"
  shows "block_size s' = block_size s
         \<and> (\<exists>reserved. math_ceil_div (tkv s' + max_tokens sp - 1) (block_size s) = Inr reserved
               \<and> map_of (req_ids2reserved_blocks s') (new_req_id r) = Some reserved)"
  using assms
  by (auto simp: prepare_prompt_def Let_def update_Some_unfold
      split: sum.splits option.splits prod.splits if_splits)

text \<open>
  Within the range of exact floats what the claim C7 says holds. If the block size is
  positive and below \<open>2 ^ 53\<close> and \<open>tkv + max_tokens - 1\<close> is below \<open>2 ^ 53\<close> in absolute
  value, a prefill that returns records, for its request, the ledger entry
  \<open>\<lceil>(tkv + max_tokens - 1) / block_size\<rceil>\<close>, where \<open>tkv\<close> is the cursor after the prefill
  has (re)initialised it.
\<close>

lemma prefill_reservation_in_range:
  assumes "new_sampling_params r = Some sp" and "prepare_prompt s [r] = Inr (s', inp)"
    and "0 < block_size s'" and "block_size s' < 2 ^ 53"
    and "\<bar>tkv s' + max_tokens sp - 1\<bar> < 2 ^ 53"
  shows "map_of (req_ids2reserved_blocks s') (new_req_id r)
           = Some \<lceil>real_of_int (tkv s' + max_tokens sp - 1) / real_of_int (block_size s')\<rceil>"
proof -
  from prepare_prompt_reserved[OF assms(1,2)] obtain reserved where
    b: "block_size s' = block_size s"
    and m: "math_ceil_div (tkv s' + max_tokens sp - 1) (block_size s) = Inr reserved"
    and l: "map_of (req_ids2reserved_blocks s') (new_req_id r) = Some reserved"
    by blast
  from math_ceil_exact[OF assms(3,4,5)] m b
  have "reserved = ceil_div (tkv s' + max_tokens sp - 1) (block_size s')" by simp
  with l show ?thesis by (simp add: ceil_div_ceiling)
qed

lemma ex_prefill_in_range:
  "prepare_prompt ex_fresh [ex_req_a] = Inr (ex_after_a, ex_inputs_a)
   \<and> tkv ex_after_a = 8 \<and> block_size ex_after_a = 4
   \<and> map_of (req_ids2reserved_blocks ex_after_a) ''a'' = Some 4"
proof -
  have p: "new_sampling_params ex_req_a = Some \<lparr>max_tokens = 6\<rparr>"
    by (simp add: ex_req_a_def)
  have h: "0 < block_size ex_after_a" "block_size ex_after_a < 2 ^ 53"
    "\<bar>tkv ex_after_a + max_tokens \<lparr>max_tokens = 6\<rparr> - 1\<bar> < 2 ^ 53"
    by (simp_all add: ex_after_a_def ex_state_def)
  have "\<lceil>real_of_int (8 + 6 - 1) / real_of_int 4\<rceil> = (4 :: int)"
    by (simp add: ceiling_divide_eq_div)
  with prefill_reservation_in_range[OF p ex_prefill_a h] ex_prefill_a show ?thesis
    by (simp add: ex_after_a_def ex_state_def ex_req_a_def)
qed


text \<open>
  C8. A prefill fails on \<^verbatim>\<open>assert prompt_len <= self.tkv\<close> exactly when requests are
  resident and the prompt is longer than the cursor: then it raises at once, and when
  \<open>prompt_len \<le> tkv\<close> (or no request is resident) that assertion cannot fail.
\<close>

theorem prefill_shape_violation:
  "prepare_prompt s [r] = Inl Assert_prompt_len_le_tkv \<longleftrightarrow>
     (req_ids2blocks s \<noteq> [] \<and> tkv s < int (length (new_prompt_token_ids r)))"
  by (auto simp: prepare_prompt_def Let_def add_request_def pad_input_ids_def
      split: sum.splits option.splits prod.splits if_splits
      dest: fill_slots_error math_ceil_div_error)

theorem prefill_shape_violation_witness:
  "req_ids2blocks ex_after_a \<noteq> [] \<and> tkv ex_after_a = 8
   \<and> prepare_prompt ex_after_a
        [\<lparr>new_req_id = ''c'', new_prompt_token_ids = [1, 2, 3, 4, 5, 6, 7, 8, 9],
          new_sampling_params = Some \<lparr>max_tokens = 1\<rparr>\<rparr>] = Inl Assert_prompt_len_le_tkv
   \<and> prepare_prompt ex_after_decode [ex_req_b] \<noteq> Inl Assert_prompt_len_le_tkv"
  using prefill_shape_violation[of ex_after_a
          "\<lparr>new_req_id = ''c'', new_prompt_token_ids = [1, 2, 3, 4, 5, 6, 7, 8, 9],
            new_sampling_params = Some \<lparr>max_tokens = 1\<rparr>\<rparr>"]
        prefill_shape_violation[of ex_after_decode ex_req_b]
  by (simp add: ex_after_a_def ex_after_decode_def ex_state_def ex_req_b_def)

subsection \<open>Finished requests\<close>

lemma ex_prefill_e: "prepare_prompt ex_fresh [ex_req_e] = Inr (ex_after_e, ex_inputs_e)"
  by code_simp

lemma ex_finished_e: "update_states ex_after_e ex_finish_e = Inr ex_after_finish_e"
  by code_simp

lemma ex_reachable_e: "reachable ex_after_e"
proof -
  have "reachable ex_fresh" unfolding ex_fresh_def by (rule reachable.fresh)
  moreover have "new_req_id ex_req_e \<notin> fst ` set (req_ids2blocks ex_fresh)"
    by (simp add: ex_fresh_def init_runner_def set_blocks_def)
  ultimately show ?thesis using ex_prefill_e by (rule reachable.prefill)
qed

text \<open>
  What the claim C5 says does hold for a request whose block table is not empty: its
  table, its ledger entry and its cached state go and its blocks join the pool, in the
  order of the table.
\<close>

lemma finished_resident:
  assumes "req_ids (scheduled_cached_reqs so) = []" and "finished_req_ids so = [rid]"
    and "map_of (req_ids2blocks s) rid = Some blocks" and "blocks \<noteq> []"
    and "map_of (req_ids2reserved_blocks s) rid = Some r"
  shows "update_states s so =
           Inr (s\<lparr>input_batch := remove_request (input_batch s) rid,
                  requests := AList.delete rid (requests s),
                  req_ids2blocks := AList.delete rid (req_ids2blocks s),
                  req_ids2reserved_blocks := AList.delete rid (req_ids2reserved_blocks s),
                  block_pool := block_pool s @ blocks\<rparr>)"
  using assms
  by (simp add: update_states_def enumerate_list_def free_request_def
      remove_finished_req_def Let_def)

text \<open>A finished id that is not resident changes nothing.\<close>

lemma finished_not_resident:
  assumes "req_ids (scheduled_cached_reqs so) = []" and "finished_req_ids so = [rid]"
    and "map_of (req_ids2blocks s) rid = None" and "map_of (requests s) rid = None"
    and "rid \<notin> set (input_batch s)"
  shows "update_states s so = Inr s"
proof -
  from assms(4) have "AList.delete rid (requests s) = requests s"
    by (simp add: map_of_eq_None_iff)
  with assms show ?thesis
    by (simp add: update_states_def enumerate_list_def free_request_def
        remove_finished_req_def remove_request_def Let_def)
qed

text \<open>
  C5 fails in the code. The request \<open>e\<close>, admitted into an empty batch with an empty
  prompt, is resident with an empty block table. When it is reported finished, the
  popped table is an empty deque, which the condition of
  \<^verbatim>\<open>if blocks_to_free := self.req_ids2blocks.pop(req_id, None)\<close> takes for false, like
  the \<^verbatim>\<open>None\<close> of an unknown id: the reservation of two blocks stays in the ledger,
  and the runner reports six free blocks of eight with no request left.
\<close>

theorem finished_keeps_reservation:
  "reachable ex_after_e
   \<and> map_of (req_ids2blocks ex_after_e) ''e'' = Some []
   \<and> map_of (req_ids2reserved_blocks ex_after_e) ''e'' = Some 2
   \<and> update_states ex_after_e ex_finish_e = Inr ex_after_finish_e
   \<and> requests ex_after_finish_e = [] \<and> req_ids2blocks ex_after_finish_e = []
   \<and> map_of (req_ids2reserved_blocks ex_after_finish_e) ''e'' = Some 2
   \<and> get_n_free_blocks ex_after_finish_e = 6
   \<and> length (block_pool ex_after_finish_e) = 8"
  using ex_reachable_e ex_finished_e
  by (simp add: ex_after_e_def ex_after_finish_e_def ex_state_def get_n_free_blocks_def)

subsection \<open>A step with nothing scheduled\<close>

text \<open>
  With no token scheduled, \<^verbatim>\<open>execute_model\<close> is \<^verbatim>\<open>update_states\<close> followed by the
  early return: the output is empty, the cursor it reports is 0 whatever \<open>tkv\<close> is, and
  the state is the one \<^verbatim>\<open>update_states\<close> leaves.
\<close>

lemma execute_model_no_tokens:
  assumes "total_num_scheduled_tokens so = 0"
  shows "execute_model sample s so =
           (case update_states s so of
              Inl e \<Rightarrow> Inl e
            | Inr s1 \<Rightarrow> Inr (s1, EMPTY_MODEL_RUNNER_OUTPUT 0 (get_n_free_blocks s1)))"
  using assms by (simp add: execute_model_def split: sum.splits)

lemma ex_no_tokens_a:
  "execute_model no_sample ex_after_b ex_finish_a =
     Inr (ex_after_finish_a, EMPTY_MODEL_RUNNER_OUTPUT 0 5)"
  using execute_model_no_tokens[of ex_finish_a no_sample ex_after_b] ex_finished_a
  by (simp add: ex_finish_a_def ex_after_finish_a_def ex_state_def get_n_free_blocks_def)

text \<open>
  C10 fails in the code, by the defect of C5. The step with nothing scheduled that
  reports the request \<open>e\<close> finished returns the empty output with cursor 0, and the
  finished request is processed before the return; but its ledger entry is still there
  afterwards, so that the step reports six free blocks of eight.
\<close>

theorem no_tokens_keeps_reservation:
  "total_num_scheduled_tokens ex_finish_e = 0 \<and> finished_req_ids ex_finish_e = [''e'']
   \<and> execute_model no_sample ex_after_e ex_finish_e
       = Inr (ex_after_finish_e, EMPTY_MODEL_RUNNER_OUTPUT 0 6)
   \<and> map_of (req_ids2reserved_blocks ex_after_e) ''e'' = Some 2
   \<and> map_of (req_ids2reserved_blocks ex_after_finish_e) ''e'' = Some 2"
  using ex_finished_e
  by (simp add: execute_model_def ex_finish_e_def ex_after_e_def ex_after_finish_e_def
      ex_state_def get_n_free_blocks_def)

subsection \<open>Decode\<close>

lemma decode_req_frame:
  assumes "decode_req crd rid sa = Inr sa'"
  shows "input_batch (fst sa') = input_batch (fst sa) \<and> requests (fst sa') = requests (fst sa)
         \<and> tkv (fst sa') = tkv (fst sa) \<and> block_size (fst sa') = block_size (fst sa)
         \<and> model_indices (fst sa') = model_indices (fst sa)"
  using assms
  by (auto simp: decode_req_def Let_def split: option.splits sum.splits if_splits prod.splits)

lemma prepare_decode_single:
  assumes "length (req_ids crd) = 1" and "prepare_decode s crd = Inr (s', inp)"
  shows "\<exists>rid req blocks.
           input_batch s = [rid] \<and> input_batch s' = [rid] \<and> requests s' = requests s
           \<and> tkv s' = tkv s + 1 \<and> block_size s' = block_size s
           \<and> map_of (requests s) rid = Some req
           \<and> map_of (req_ids2blocks s') rid = Some blocks
           \<and> inp = \<lparr>input_tokens = [[last (output_token_ids req)], [last (output_token_ids req)]],
                     input_positions = [[num_computed_tokens crd ! 0], [num_computed_tokens crd ! 0]],
                     current_tkv_mask = Some [tkv s + 1, tkv s + 1],
                     left_padded_prompt_mask = Some [left_padding req, left_padding req],
                     block_table = Some [blocks, blocks],
                     slot_mapping = [[last blocks * block_size s + tkv s mod block_size s],
                                     [last blocks * block_size s + tkv s mod block_size s]],
                     is_prompt = False\<rparr>
           \<and> model_indices s' = [True, False]"
proof -
  from assms have "length (input_batch s) = 1"
    by (auto simp: prepare_decode_def split: if_splits)
  then obtain rid where b: "input_batch s = [rid]"
    by (cases "input_batch s") auto
  from assms(1) obtain c where c: "req_ids crd = [c]"
    by (cases "req_ids crd") auto
  from assms b c show ?thesis
    by (auto simp: prepare_decode_def sorted_requests_ids_def decode_req_def Let_def
        empty_decode_lists_def pad_batch_def cached_reqs_map_def update_Some_unfold
        split: option.splits sum.splits if_splits prod.splits)
qed


lemma ex_decode_step_run:
  "execute_model ex_sample ex_sampled_a ex_decode_step
     = Inr (ex_after_step, cb_output [''a''] [(''a'', 0)] [[8], [99]] 9 4)"
  by code_simp

text \<open>
  C9. A decode step with a single resident request. Every tensor handed to the forward
  pass is the row of that request twice, the active-row mask is \<open>[True, False]\<close>, and
  the state after the step is the state after the preparation with the first sampled
  row, and nothing else, appended to the output history of that request: the second
  row of the sampler is read nowhere.
\<close>

theorem single_decode_step:
  assumes "length (req_ids (scheduled_cached_reqs so)) = 1"
    and "scheduled_new_reqs so = []"
    and "total_num_scheduled_tokens so \<noteq> 0"
    and "execute_model sample s so = Inr (s3, out)"
  shows "\<exists>s1 s2 inp rid req blocks.
           update_states s so = Inr s1 \<and> prepare_model_input s1 so = Inr (s2, inp)
           \<and> input_batch s2 = [rid] \<and> map_of (requests s2) rid = Some req
           \<and> map_of (req_ids2blocks s2) rid = Some blocks
           \<and> input_tokens inp = [[last (output_token_ids req)], [last (output_token_ids req)]]
           \<and> input_positions inp
                = [[num_computed_tokens (scheduled_cached_reqs so) ! 0],
                   [num_computed_tokens (scheduled_cached_reqs so) ! 0]]
           \<and> current_tkv_mask inp = Some [tkv s2, tkv s2]
           \<and> left_padded_prompt_mask inp = Some [left_padding req, left_padding req]
           \<and> block_table inp = Some [blocks, blocks]
           \<and> slot_mapping inp
                = [[last blocks * block_size s2 + (tkv s2 - 1) mod block_size s2],
                   [last blocks * block_size s2 + (tkv s2 - 1) mod block_size s2]]
           \<and> model_indices s2 = [True, False]
           \<and> s3 = s2\<lparr>requests :=
                       AList.update rid
                         (req\<lparr>output_token_ids :=
                                output_token_ids req @ sample inp [True, False] ! 0\<rparr>)
                         (requests s2)\<rparr>"
proof -
  from assms(4) obtain s1 where u: "update_states s so = Inr s1"
    by (auto simp: execute_model_def split: sum.splits)
  from assms(3,4) u obtain s2 inp where p: "prepare_model_input s1 so = Inr (s2, inp)"
    by (auto simp: execute_model_def split: sum.splits)
  from p assms(2) obtain s1r where d: "prepare_decode s1r (scheduled_cached_reqs so) = Inr (s2, inp)"
    by (auto simp: prepare_model_input_def split: sum.splits)
  from prepare_decode_single[OF assms(1) d] obtain rid req blocks where
    b: "input_batch s2 = [rid]" and r: "map_of (requests s2) rid = Some req"
    and t: "map_of (req_ids2blocks s2) rid = Some blocks"
    and k: "tkv s2 = tkv s1r + 1" and bs: "block_size s2 = block_size s1r"
    and i: "inp = \<lparr>input_tokens = [[last (output_token_ids req)], [last (output_token_ids req)]],
                     input_positions = [[num_computed_tokens (scheduled_cached_reqs so) ! 0],
                                        [num_computed_tokens (scheduled_cached_reqs so) ! 0]],
                     current_tkv_mask = Some [tkv s1r + 1, tkv s1r + 1],
                     left_padded_prompt_mask = Some [left_padding req, left_padding req],
                     block_table = Some [blocks, blocks],
                     slot_mapping = [[last blocks * block_size s1r + tkv s1r mod block_size s1r],
                                     [last blocks * block_size s1r + tkv s1r mod block_size s1r]],
                     is_prompt = False\<rparr>"
    and m: "model_indices s2 = [True, False]"
    by auto
  from i have np: "is_prompt inp = False" by simp
  from assms(3,4) u p np b m have
    a: "for_each (append_sampled (sample inp [True, False])) [(0, rid)] s2 = Inr s3"
    by (auto simp: execute_model_def Let_def sorted_requests_ids_def enumerate_list_def
        split: sum.splits if_splits)
  from a r have
    "s3 = s2\<lparr>requests :=
                AList.update rid
                  (req\<lparr>output_token_ids := output_token_ids req @ sample inp [True, False] ! 0\<rparr>)
                  (requests s2)\<rparr>"
    by (auto simp: append_sampled_def Let_def split: sum.splits if_splits)
  with u p b r t k bs m i show ?thesis by simp
qed

theorem single_decode_step_witness:
  "length (req_ids (scheduled_cached_reqs ex_decode_step)) = 1
   \<and> scheduled_new_reqs ex_decode_step = []
   \<and> total_num_scheduled_tokens ex_decode_step \<noteq> 0
   \<and> execute_model ex_sample ex_sampled_a ex_decode_step
       = Inr (ex_after_step, cb_output [''a''] [(''a'', 0)] [[8], [99]] 9 4)
   \<and> prepare_model_input ex_sampled_a ex_decode_step = Inr (ex_after_decode, ex_inputs_decode)
   \<and> input_tokens ex_inputs_decode = [[7], [7]]
   \<and> slot_mapping ex_inputs_decode = [[8], [8]]
   \<and> model_indices ex_after_decode = [True, False]
   \<and> map_of (requests ex_after_decode) ''a'' = Some (ex_state_a [7] 3)
   \<and> map_of (requests ex_after_step) ''a'' = Some (ex_state_a [7, 8] 3)"
proof -
  have h: "length (req_ids (scheduled_cached_reqs ex_decode_step)) = 1"
    "scheduled_new_reqs ex_decode_step = []"
    "total_num_scheduled_tokens ex_decode_step \<noteq> 0"
    by (simp_all add: ex_decode_step_def ex_crd_a_def)
  have o: "map_of (requests ex_after_decode) ''a'' = Some (ex_state_a [7] 3)"
    "map_of (requests ex_after_step) ''a'' = Some (ex_state_a [7, 8] 3)"
    "input_tokens ex_inputs_decode = [[7], [7]]"
    "slot_mapping ex_inputs_decode = [[8], [8]]"
    by (simp_all add: ex_after_decode_def ex_after_step_def ex_state_def ex_inputs_decode_def)
  have u: "update_states ex_sampled_a ex_decode_step = Inr ex_sampled_a"
    by code_simp
  have p: "prepare_model_input ex_sampled_a ex_decode_step
             = Inr (ex_after_decode, ex_inputs_decode)"
    by code_simp
  from single_decode_step[OF h ex_decode_step_run] u p
  have "model_indices ex_after_decode = [True, False]" by auto
  with h ex_decode_step_run o p show ?thesis by simp
qed

lemma decode_req_step:
  assumes "decode_req crd rid (s, acc) = Inr (s1, acc1)"
  shows "tkv s1 = tkv s" and "block_size s1 = block_size s"
    and "\<And>r. r \<noteq> rid \<Longrightarrow> table_of s1 r = table_of s r"
    and "table_of s1 rid = (if needs_block s rid then table_of s rid @ [last (table_of s1 rid)]
                            else table_of s rid)"
    and "block_pool s = (if needs_block s rid then [last (table_of s1 rid)] else []) @ block_pool s1"
    and "dl_slot_mapping acc1
           = dl_slot_mapping acc
             @ [[last (table_of s1 rid) * block_size s + tkv s mod block_size s]]"
  using assms
  by (auto simp: decode_req_def add_block_if_needed_def table_of_def needs_block_def Let_def
      update_conv' split: option.splits sum.splits if_splits list.splits)

lemma decode_loop:
  assumes "for_each (decode_req crd) xs (s, acc) = Inr (s', acc')" and "distinct xs"
  shows "tkv s' = tkv s \<and> block_size s' = block_size s
         \<and> (\<forall>r. r \<notin> set xs \<longrightarrow> table_of s' r = table_of s r)
         \<and> (\<forall>r \<in> set xs. table_of s' r
               = (if needs_block s r then table_of s r @ [last (table_of s' r)]
                  else table_of s r))
         \<and> block_pool s
             = map (\<lambda>r. last (table_of s' r)) (filter (needs_block s) xs) @ block_pool s'
         \<and> dl_slot_mapping acc'
             = dl_slot_mapping acc
               @ map (\<lambda>r. [last (table_of s' r) * block_size s + tkv s mod block_size s]) xs"
  using assms
proof (induction xs arbitrary: s acc)
  case Nil
  then show ?case by simp
next
  case (Cons x xs)
  from Cons.prems(1) obtain s1 acc1 where
    st: "decode_req crd x (s, acc) = Inr (s1, acc1)"
    and lp: "for_each (decode_req crd) xs (s1, acc1) = Inr (s', acc')"
    by (auto split: sum.splits)
  from Cons.prems(2) have dx: "distinct xs" and nx: "x \<notin> set xs" by auto
  note S = decode_req_step[OF st]
  from Cons.IH[OF lp dx] have
    I1: "tkv s' = tkv s1" "block_size s' = block_size s1"
    and I2: "\<And>r. r \<notin> set xs \<Longrightarrow> table_of s' r = table_of s1 r"
    and I3: "\<And>r. r \<in> set xs \<Longrightarrow> table_of s' r
               = (if needs_block s1 r then table_of s1 r @ [last (table_of s' r)]
                  else table_of s1 r)"
    and I4: "block_pool s1
             = map (\<lambda>r. last (table_of s' r)) (filter (needs_block s1) xs) @ block_pool s'"
    and I5: "dl_slot_mapping acc'
             = dl_slot_mapping acc1
               @ map (\<lambda>r. [last (table_of s' r) * block_size s1 + tkv s1 mod block_size s1]) xs"
    by auto
  have nb: "needs_block s1 r = needs_block s r" if "r \<in> set xs" for r
  proof -
    from that nx have "r \<noteq> x" by auto
    with S(3) have "table_of s1 r = table_of s r" by simp
    with S(1,2) show ?thesis by (simp add: needs_block_def)
  qed
  then have fl: "filter (needs_block s1) xs = filter (needs_block s) xs"
    by (auto intro: filter_cong)
  from I2[OF nx] have tx: "table_of s' x = table_of s1 x" .
  have c1: "tkv s' = tkv s \<and> block_size s' = block_size s" using I1 S(1,2) by simp
  have c2: "\<forall>r. r \<notin> set (x # xs) \<longrightarrow> table_of s' r = table_of s r"
    using I2 S(3) by auto
  have c3: "\<forall>r \<in> set (x # xs). table_of s' r
               = (if needs_block s r then table_of s r @ [last (table_of s' r)]
                  else table_of s r)"
  proof
    fix r assume "r \<in> set (x # xs)"
    then consider "r = x" | "r \<in> set xs" "r \<noteq> x" by auto
    then show "table_of s' r
               = (if needs_block s r then table_of s r @ [last (table_of s' r)]
                  else table_of s r)"
    proof cases
      case 1
      show ?thesis unfolding 1 tx by (rule S(4))
    next
      case 2
      show ?thesis using I3[OF 2(1)] unfolding nb[OF 2(1)] S(3)[OF 2(2)] .
    qed
  qed
  have c4: "block_pool s
             = map (\<lambda>r. last (table_of s' r)) (filter (needs_block s) (x # xs)) @ block_pool s'"
    using S(5) I4 fl tx by simp
  have c5: "dl_slot_mapping acc'
             = dl_slot_mapping acc
               @ map (\<lambda>r. [last (table_of s' r) * block_size s + tkv s mod block_size s]) (x # xs)"
    using S(6) I5 S(1,2) tx by simp
  from c1 c2 c3 c4 c5 show ?case by blast
qed


text \<open>
  C2, as the claim states it, fails in the slot: the decode of the worked run advances
  the cursor from 8 to 9 and gives request \<open>a\<close> the block 2, and the slot it writes is
  \<open>2 * 4 + 8 mod 4 = 8\<close>; with the advanced cursor it would be \<open>2 * 4 + 9 mod 4 = 9\<close>.
\<close>

theorem decode_slot_counterexample:
  "prepare_decode ex_sampled_a ex_crd_a = Inr (ex_after_decode, ex_inputs_decode)
   \<and> tkv ex_sampled_a = 8 \<and> tkv ex_after_decode = 9
   \<and> table_of ex_after_decode ''a'' = [0, 1, 2]
   \<and> slot_mapping ex_inputs_decode = [[8], [8]]
   \<and> last (table_of ex_after_decode ''a'') * block_size ex_after_decode
       + tkv ex_after_decode mod block_size ex_after_decode = 9"
  using ex_decode
  by (simp add: ex_sampled_a_def ex_after_decode_def ex_inputs_decode_def ex_state_def
      table_of_def)

text \<open>
  C2, amended. A decode step that returns advances the cursor by one. With \<open>tkv\<close> the
  cursor before the advance: a resident request gets one more block, popped from the
  left of the pool and appended to its table, exactly when
  \<open>tkv div block_size + 1\<close> exceeds the number of blocks it holds, the pool loses these
  blocks and no other, the tables of the other requests stay, and the slot of the
  \<open>i\<close>-th request is \<open>last_block_id * block_size + tkv mod block_size\<close>, where
  \<open>last_block_id\<close> is the last block of its table after the step.
\<close>

theorem decode_step:
  assumes "prepare_decode s crd = Inr (s', inp)" and "distinct (input_batch s)"
  shows "tkv s' = tkv s + 1
         \<and> block_pool s
             = map (\<lambda>r. last (table_of s' r)) (filter (needs_block s) (input_batch s))
               @ block_pool s'
         \<and> (\<forall>r \<in> set (input_batch s). table_of s' r
               = (if needs_block s r then table_of s r @ [last (table_of s' r)]
                  else table_of s r))
         \<and> (\<forall>r. r \<notin> set (input_batch s) \<longrightarrow> table_of s' r = table_of s r)
         \<and> (\<forall>i < length (input_batch s). slot_mapping inp ! i
               = [last (table_of s' (input_batch s ! i)) * block_size s
                  + tkv s mod block_size s])"
proof -
  from assms(1) obtain s1 acc where
    lp: "for_each (decode_req crd) (input_batch s) (s, empty_decode_lists) = Inr (s1, acc)"
    and s': "s' = s1\<lparr>tkv := tkv s1 + 1,
                     model_indices :=
                       (if length (req_ids crd) = 1
                        then replicate (length (req_ids crd)) True @ [False]
                        else replicate (length (req_ids crd)) True)\<rparr>"
    and sl: "slot_mapping inp = pad_batch (length (req_ids crd) = 1) (dl_slot_mapping acc)"
    by (auto simp: prepare_decode_def sorted_requests_ids_def Let_def
        split: if_splits sum.splits prod.splits)
  from s' have t: "table_of s' = table_of s1" and p: "block_pool s' = block_pool s1"
    and k: "tkv s' = tkv s1 + 1"
    by (auto simp: table_of_def fun_eq_iff)
  from decode_loop[OF lp assms(2)] have
    L1: "tkv s1 = tkv s"
    and L2: "\<forall>r. r \<notin> set (input_batch s) \<longrightarrow> table_of s1 r = table_of s r"
    and L3: "\<forall>r \<in> set (input_batch s). table_of s1 r
               = (if needs_block s r then table_of s r @ [last (table_of s1 r)]
                  else table_of s r)"
    and L4: "block_pool s
               = map (\<lambda>r. last (table_of s1 r)) (filter (needs_block s) (input_batch s))
                 @ block_pool s1"
    and L5: "dl_slot_mapping acc
               = map (\<lambda>r. [last (table_of s1 r) * block_size s + tkv s mod block_size s])
                   (input_batch s)"
    by (simp_all add: empty_decode_lists_def)
  have "\<forall>i < length (input_batch s). slot_mapping inp ! i
               = [last (table_of s1 (input_batch s ! i)) * block_size s
                  + tkv s mod block_size s]"
    unfolding sl L5 by (simp add: pad_batch_def nth_append)
  with L1 L2 L3 L4 show ?thesis unfolding t p k by simp
qed

theorem decode_step_witness:
  "prepare_decode ex_sampled_a ex_crd_a = Inr (ex_after_decode, ex_inputs_decode)
   \<and> distinct (input_batch ex_sampled_a) \<and> input_batch ex_sampled_a = [''a'']
   \<and> needs_block ex_sampled_a ''a''
   \<and> tkv ex_after_decode = tkv ex_sampled_a + 1
   \<and> block_pool ex_sampled_a = [2] @ block_pool ex_after_decode
   \<and> table_of ex_after_decode ''a'' = table_of ex_sampled_a ''a'' @ [2]
   \<and> slot_mapping ex_inputs_decode ! 0 = [2 * 4 + 8 mod 4]"
proof -
  have d: "distinct (input_batch ex_sampled_a)"
    by (simp add: ex_sampled_a_def ex_state_def)
  have e: "input_batch ex_sampled_a = [''a'']" "needs_block ex_sampled_a ''a''"
    "table_of ex_after_decode ''a'' = [0, 1, 2]" "table_of ex_sampled_a ''a'' = [0, 1]"
    "block_size ex_sampled_a = 4" "tkv ex_sampled_a = 8"
    by (simp_all add: ex_sampled_a_def ex_after_decode_def ex_state_def needs_block_def
        table_of_def)
  from decode_step[OF ex_decode d] d e ex_decode show ?thesis by simp
qed

subsection \<open>The blocks and slots of a prefill\<close>

lemma block_count_aligned:
  fixes B j L :: nat
  assumes "0 < B" "j \<le> L * B" "L * B < j + B" "j mod B = 0"
  shows "L = j div B"
proof -
  define q where "q = j div B"
  have q: "j = q * B" using div_mult_mod_eq[of j B] assms(4) by (simp add: q_def)
  have "(q + 1) * B = q * B + B" by (simp add: algebra_simps)
  with q assms have "q * B \<le> L * B" "L * B < (q + 1) * B" by simp_all
  then have "q \<le> L" "L < q + 1" by (simp_all only: mult_le_cancel2 mult_less_cancel2)
  then show ?thesis by (simp add: q_def)
qed

lemma block_count_inside:
  fixes B j L :: nat
  assumes "0 < B" "j \<le> L * B" "L * B < j + B" "j mod B \<noteq> 0"
  shows "L = j div B + 1" "Suc j \<le> L * B"
proof -
  define q r where "q = j div B" and "r = j mod B"
  have j: "j = q * B + r" and r: "0 < r" "r < B" using assms(1,4) by (simp_all add: q_def r_def)
  from assms(2) j r have "q * B < L * B" by linarith
  then have 1: "q < L" by (simp only: mult_less_cancel2)
  have e: "(q + 2) * B = q * B + B + B" "(q + 1) * B = q * B + B" by (simp_all add: algebra_simps)
  from assms(3) j r have "L * B < (q + 2) * B" unfolding e by linarith
  then have 2: "L < q + 2" by (simp only: mult_less_cancel2)
  from 1 2 show L: "L = j div B + 1" by (simp add: q_def)
  from L have "L * B = q * B + B" by (simp add: q_def algebra_simps)
  with j r show "Suc j \<le> L * B" by linarith
qed


lemma fill_slots_inv:
  assumes "0 < B"
    and "fill_slots (int B) (map int [j..<m]) pool blocks slots bn = Inr (pool', blocks', slots')"
    and "j \<le> length blocks * B" and "length blocks * B < j + B"
    and "j mod B \<noteq> 0 \<longrightarrow> bn = last blocks"
    and "j \<le> m"
  shows "(\<exists>popped. pool = popped @ pool' \<and> blocks' = blocks @ popped)
         \<and> m \<le> length blocks' * B \<and> length blocks' * B < m + B
         \<and> slots' = slots @ map (\<lambda>i. blocks' ! (i div B) * int B + int (i mod B)) [j..<m]"
  using assms(2-)
proof (induction "m - j" arbitrary: j pool blocks slots bn)
  case 0
  then have "j = m" by simp
  with 0 show ?case by simp
next
  case (Suc n)
  then have jm: "j < m" and n: "n = m - Suc j" and sm: "Suc j \<le> m" by simp_all
  have up: "[j..<m] = j # [Suc j..<m]" using jm by (simp add: upt_conv_Cons)
  have md: "int j mod int B = int (j mod B)" by (simp add: zmod_int)
  show ?case
  proof (cases "j mod B = 0")
    case True
    from block_count_aligned[OF assms(1) Suc.prems(2,3) True] have L: "length blocks = j div B" .
    with True have LB: "length blocks * B = j" by (simp add: mod_0_imp_dvd)
    from Suc.prems(1) True obtain b pool1 where pool: "pool = b # pool1"
      and rec: "fill_slots (int B) (map int [Suc j..<m]) pool1 (blocks @ [b])
                  (slots @ [b * int B + int (j mod B)]) b = Inr (pool', blocks', slots')"
      unfolding up by (auto simp: md split: list.splits)
    have p2: "Suc j \<le> length (blocks @ [b]) * B" using LB assms(1) by simp
    have p3: "length (blocks @ [b]) * B < Suc j + B" using LB by simp
    have p4: "Suc j mod B \<noteq> 0 \<longrightarrow> b = last (blocks @ [b])" by simp
    from Suc.hyps(1)[OF n rec p2 p3 p4 sm] obtain popped where
      I1: "pool1 = popped @ pool'" and I2: "blocks' = (blocks @ [b]) @ popped"
      and I3: "m \<le> length blocks' * B" "length blocks' * B < m + B"
      and I4: "slots' = (slots @ [b * int B + int (j mod B)])
                 @ map (\<lambda>i. blocks' ! (i div B) * int B + int (i mod B)) [Suc j..<m]"
      by blast
    from I2 L have "blocks' ! (j div B) = b" by (simp add: nth_append)
    with I4 have "slots' = slots @ map (\<lambda>i. blocks' ! (i div B) * int B + int (i mod B)) [j..<m]"
      unfolding up by simp
    moreover from pool I1 I2 have "pool = (b # popped) @ pool' \<and> blocks' = blocks @ (b # popped)" by simp
    ultimately show ?thesis using I3 by blast
  next
    case False
    from block_count_inside[OF assms(1) Suc.prems(2,3) False]
    have L: "length blocks = j div B + 1" and p2: "Suc j \<le> length blocks * B" by simp_all
    from Suc.prems(4) False have bn: "bn = last blocks" by simp
    from L have ne: "blocks \<noteq> []" by auto
    from Suc.prems(1) False have
      rec: "fill_slots (int B) (map int [Suc j..<m]) pool blocks
              (slots @ [bn * int B + int (j mod B)]) bn = Inr (pool', blocks', slots')"
      unfolding up by (auto simp: md)
    have p3: "length blocks * B < Suc j + B" using Suc.prems(3) by simp
    have p4: "Suc j mod B \<noteq> 0 \<longrightarrow> bn = last blocks" using bn by simp
    from Suc.hyps(1)[OF n rec p2 p3 p4 sm] obtain popped where
      I1: "pool = popped @ pool'" and I2: "blocks' = blocks @ popped"
      and I3: "m \<le> length blocks' * B" "length blocks' * B < m + B"
      and I4: "slots' = (slots @ [bn * int B + int (j mod B)])
                 @ map (\<lambda>i. blocks' ! (i div B) * int B + int (i mod B)) [Suc j..<m]"
      by blast
    from I2 L ne bn have "blocks' ! (j div B) = bn"
      by (simp add: nth_append last_conv_nth)
    with I4 have "slots' = slots @ map (\<lambda>i. blocks' ! (i div B) * int B + int (i mod B)) [j..<m]"
      unfolding up by simp
    with I1 I2 I3 show ?thesis by blast
  qed
qed


lemma ceil_div_bounds:
  assumes "0 < b"
  shows "n \<le> ceil_div n b * b" and "ceil_div n b * b < n + b"
proof -
  have e: "ceil_div n b * b = - ((- n) div b * b)" by (simp add: ceil_div_def)
  have "(- n) div b * b = - n - (- n) mod b" by (simp add: minus_mod_eq_div_mult)
  moreover have "0 \<le> (- n) mod b" "(- n) mod b < b" using assms by simp_all
  ultimately show "n \<le> ceil_div n b * b" and "ceil_div n b * b < n + b"
    unfolding e by linarith+
qed

lemma prepare_prompt_parts:
  assumes "prepare_prompt s [r] = Inr (s', inp)"
  shows "\<exists>pool' blocks slots toks poss.
           fill_slots (block_size s) (map int [0..<nat (block_padding s r)]) (block_pool s) [] [] 0
             = Inr (pool', blocks, slots)
           \<and> pad_input_ids (pad_token_id s) (tkv s') (new_prompt_token_ids r) (block_padding s r)
               = Inr (toks, poss)
           \<and> tkv s' = (if req_ids2blocks s = [] then block_padding s r else tkv s)
           \<and> (req_ids2blocks s \<noteq> [] \<longrightarrow> int (length (new_prompt_token_ids r)) \<le> tkv s)
           \<and> block_pool s' = pool' \<and> table_of s' (new_req_id r) = blocks
           \<and> input_tokens inp = [toks] \<and> slot_mapping inp = [slots]"
  using assms
  by (auto simp: prepare_prompt_def block_padding_def table_of_def Let_def update_conv'
      split: sum.splits option.splits prod.splits if_splits)


text \<open>
  C3, as the claim states it, fails for a prefill that joins a batch: request \<open>b\<close> joins
  at cursor 9 with block size 4; the padded length is 12, three blocks are allocated and
  twelve slots are written, and the cursor stays 9.
\<close>

theorem prefill_joining_counterexample:
  "prepare_prompt ex_after_decode [ex_req_b] = Inr (ex_after_b, ex_inputs_b)
   \<and> req_ids2blocks ex_after_decode \<noteq> [] \<and> tkv ex_after_decode = 9
   \<and> tkv ex_after_b = 9
   \<and> length (hd (input_tokens ex_inputs_b)) = 12
   \<and> length (hd (slot_mapping ex_inputs_b)) = 12
   \<and> table_of ex_after_b ''b'' = [3, 4, 5]"
  using ex_prefill_b
  by (simp add: ex_after_decode_def ex_after_b_def ex_inputs_b_def ex_state_def table_of_def)

text \<open>
  C3, amended. For a prefill that returns, with a positive block size, let \<open>padded\<close> be
  \<open>\<lceil>prompt_len / block_size\<rceil> * block_size\<close> when no request is resident and
  \<open>\<lceil>tkv / block_size\<rceil> * block_size\<close>, the cursor rounded up to the next multiple of the
  block size, when the request joins a batch. In an empty batch the cursor becomes
  \<open>padded\<close>; in a joining prefill it stays. The token row is the prompt with
  \<open>tkv - prompt_len\<close> pads on its left, up to the cursor, and \<open>padded - tkv\<close> pads on its
  right, so its length is \<open>padded\<close>. The request's table is the \<open>padded / block_size\<close>
  blocks popped from the left of the pool, and position \<open>i\<close> of the slot mapping is
  \<open>table[i div block_size] * block_size + i mod block_size\<close>.
\<close>

theorem prefill_step:
  assumes "prepare_prompt s [r] = Inr (s', inp)" and "0 < block_size s"
  shows "tkv s' = (if req_ids2blocks s = [] then block_padding s r else tkv s)
         \<and> tkv s' \<le> block_padding s r \<and> block_padding s r < tkv s' + block_size s
         \<and> input_tokens inp
             = [replicate (nat (tkv s' - int (length (new_prompt_token_ids r)))) (pad_token_id s)
                @ new_prompt_token_ids r
                @ replicate (nat (block_padding s r - tkv s')) (pad_token_id s)]
         \<and> int (length (hd (input_tokens inp))) = block_padding s r
         \<and> block_pool s = table_of s' (new_req_id r) @ block_pool s'
         \<and> int (length (table_of s' (new_req_id r))) * block_size s = block_padding s r
         \<and> slot_mapping inp
             = [map (\<lambda>i. table_of s' (new_req_id r) ! (i div nat (block_size s)) * block_size s
                          + int (i mod nat (block_size s)))
                  [0..<nat (block_padding s r)]]"
proof -
  define B where "B = nat (block_size s)"
  define P where "P = block_padding s r"
  define plen where "plen = int (length (new_prompt_token_ids r))"
  from assms(2) have B: "0 < B" and bs: "block_size s = int B" by (simp_all add: B_def)
  from prepare_prompt_parts[OF assms(1)] obtain pool' blocks slots toks poss where
    fs: "fill_slots (int B) (map int [0..<nat P]) (block_pool s) [] [] 0
           = Inr (pool', blocks, slots)"
    and pi: "pad_input_ids (pad_token_id s) (tkv s') (new_prompt_token_ids r) P = Inr (toks, poss)"
    and k: "tkv s' = (if req_ids2blocks s = [] then P else tkv s)"
    and g: "req_ids2blocks s \<noteq> [] \<longrightarrow> plen \<le> tkv s"
    and p: "block_pool s' = pool'" and t: "table_of s' (new_req_id r) = blocks"
    and it: "input_tokens inp = [toks]" and sm: "slot_mapping inp = [slots]"
    unfolding P_def plen_def bs by blast
  have Pn: "P = ceil_div (if req_ids2blocks s = [] then plen else tkv s) (int B) * int B"
    by (simp add: P_def block_padding_def plen_def bs)
  have c1: "tkv s' \<le> P" and c2: "P < tkv s' + int B" and c3: "plen \<le> tkv s'"
    using ceil_div_bounds[of "int B" "if req_ids2blocks s = [] then plen else tkv s"] B k g
    unfolding Pn by (auto split: if_splits)
  have p0: "0 \<le> plen" by (simp add: plen_def)
  from pi c1 c3 have toks:
    "toks = replicate (nat (tkv s' - plen)) (pad_token_id s) @ new_prompt_token_ids r
            @ replicate (nat (P - tkv s')) (pad_token_id s)"
    by (auto simp: pad_input_ids_def base_pad_input_ids_def Let_def plen_def max_def
        split: if_splits)
  from c1 c3 p0 have lt: "int (length toks) = P"
    unfolding toks by (simp add: plen_def)
  have "P mod int B = 0" by (simp add: Pn)
  moreover from c1 c3 p0 have P0: "0 \<le> P" by simp
  ultimately have md: "nat P mod B = 0"
    by (metis int_nat_eq nat_int of_nat_0 zmod_int)
  from fill_slots_inv[OF B fs, simplified] obtain popped where
    f1: "block_pool s = popped @ pool'" and f2: "blocks = popped"
    and f3: "nat P \<le> length blocks * B" and f4: "length blocks * B < nat P + B"
    and f5: "slots = map (\<lambda>i. blocks ! (i div B) * int B + int (i mod B)) [0..<nat P]"
    using B by auto
  from block_count_aligned[OF B f3 f4 md] md have "length blocks * B = nat P"
    by (simp add: mod_0_imp_dvd)
  then have "int (length blocks * B) = P" using P0 by simp
  then have lb: "int (length blocks) * int B = P" by simp
  from k c1 c2 toks lt f1 f2 lb f5 show ?thesis
    unfolding P_def[symmetric] bs p t it sm plen_def[symmetric] by simp
qed


theorem prefill_step_witness:
  "prepare_prompt ex_after_decode [ex_req_b] = Inr (ex_after_b, ex_inputs_b)
   \<and> 0 < block_size ex_after_decode
   \<and> block_padding ex_after_decode ex_req_b = 12
   \<and> tkv ex_after_b = 9
   \<and> input_tokens ex_inputs_b = [[0, 0, 0, 0, 0, 0, 21, 22, 23, 0, 0, 0]]
   \<and> block_pool ex_after_decode = table_of ex_after_b ''b'' @ block_pool ex_after_b
   \<and> int (length (table_of ex_after_b ''b'')) * 4 = 12"
proof -
  have h: "0 < block_size ex_after_decode"
    by (simp add: ex_after_decode_def ex_state_def)
  have e: "block_padding ex_after_decode ex_req_b = 12" "block_size ex_after_decode = 4"
    "new_req_id ex_req_b = ''b''" "tkv ex_after_b = 9"
    "input_tokens ex_inputs_b = [[0, 0, 0, 0, 0, 0, 21, 22, 23, 0, 0, 0]]"
    by (simp_all add: block_padding_def ceil_div_def ex_after_decode_def ex_after_b_def
        ex_state_def ex_req_b_def ex_inputs_b_def)
  from prefill_step[OF ex_prefill_b h] e h ex_prefill_b show ?thesis by simp
qed

subsection \<open>Left-padding reclamation\<close>

lemma free_padded_block_step:
  assumes "free_padded_block rid s = Inr s1"
  shows "\<exists>b rest r. table_of s rid = b # rest \<and> table_of s1 rid = rest
           \<and> block_pool s1 = block_pool s @ [b]
           \<and> map_of (req_ids2reserved_blocks s) rid = Some r
           \<and> map_of (req_ids2reserved_blocks s1) rid = Some (r - 1)"
    and "\<And>r. r \<noteq> rid \<Longrightarrow> table_of s1 r = table_of s r"
    and "\<And>r. r \<noteq> rid \<Longrightarrow>
           map_of (req_ids2reserved_blocks s1) r = map_of (req_ids2reserved_blocks s) r"
    and "requests s1 = requests s" and "tkv s1 = tkv s" and "block_size s1 = block_size s"
  using assms
  by (auto simp: free_padded_block_def table_of_def update_conv'
      split: option.splits list.splits)

lemma free_padded_blocks:
  assumes "for_each (\<lambda>_. free_padded_block rid) (replicate n ()) s = Inr s'"
  shows "n \<le> length (table_of s rid) \<and> table_of s' rid = drop n (table_of s rid)
         \<and> block_pool s' = block_pool s @ take n (table_of s rid)
         \<and> map_of (req_ids2reserved_blocks s') rid
             = map_option (\<lambda>x. x - int n) (map_of (req_ids2reserved_blocks s) rid)
         \<and> (\<forall>r. r \<noteq> rid \<longrightarrow> table_of s' r = table_of s r
                \<and> map_of (req_ids2reserved_blocks s') r = map_of (req_ids2reserved_blocks s) r)
         \<and> requests s' = requests s \<and> tkv s' = tkv s \<and> block_size s' = block_size s"
  using assms
proof (induction n arbitrary: s)
  case 0
  then show ?case by (simp add: option.map_ident)
next
  case (Suc n)
  from Suc.prems obtain s1 where
    st: "free_padded_block rid s = Inr s1"
    and lp: "for_each (\<lambda>_. free_padded_block rid) (replicate n ()) s1 = Inr s'"
    by (auto split: sum.splits)
  from free_padded_block_step(1)[OF st] obtain b rest r where
    S: "table_of s rid = b # rest" "table_of s1 rid = rest"
       "block_pool s1 = block_pool s @ [b]"
       "map_of (req_ids2reserved_blocks s) rid = Some r"
       "map_of (req_ids2reserved_blocks s1) rid = Some (r - 1)"
    by blast
  note O = free_padded_block_step(2-)[OF st]
  from Suc.IH[OF lp] S O show ?case by simp
qed

lemma update_as_map:
  assumes "distinct (map fst al)" and "map_of al k = Some v"
  shows "AList.update k (f v) al = map (\<lambda>p. if fst p = k then (fst p, f (snd p)) else p) al"
  using assms
proof (induction al)
  case Nil
  then show ?case by simp
next
  case (Cons p al)
  show ?case
  proof (cases "fst p = k")
    case True
    with Cons.prems have v: "snd p = v" and "k \<notin> fst ` set al" by auto
    then have "map (\<lambda>p. if fst p = k then (fst p, f (snd p)) else p) al = al"
      by (intro map_idI) auto
    with True v show ?thesis by (cases p) simp
  next
    case False
    with Cons show ?thesis by (cases p) auto
  qed
qed


lemma reduce_req_step:
  assumes "reduce_req offset n k s = Inr s1" and "distinct (map fst (requests s))"
    and "map_of (requests s) k = Some v" and "req_id v = k"
  shows "requests s1 = map (\<lambda>p. if fst p = k then shift_left offset p else p) (requests s)"
    and "nat n \<le> length (table_of s k)"
    and "table_of s1 k = drop (nat n) (table_of s k)"
    and "block_pool s1 = block_pool s @ take (nat n) (table_of s k)"
    and "map_of (req_ids2reserved_blocks s1) k
           = map_option (\<lambda>x. x - int (nat n)) (map_of (req_ids2reserved_blocks s) k)"
    and "\<And>r. r \<noteq> k \<Longrightarrow> table_of s1 r = table_of s r"
    and "\<And>r. r \<noteq> k \<Longrightarrow>
           map_of (req_ids2reserved_blocks s1) r = map_of (req_ids2reserved_blocks s) r"
    and "tkv s1 = tkv s" and "block_size s1 = block_size s"
proof -
  define s0 where
    "s0 = s\<lparr>requests :=
              AList.update k (v\<lparr>left_padding := left_padding v - offset\<rparr>) (requests s)\<rparr>"
  from assms(1,3,4) have
    lp: "for_each (\<lambda>_. free_padded_block k) (replicate (nat n) ()) s0 = Inr s1"
    by (simp add: reduce_req_def s0_def)
  have t0: "table_of s0 = table_of s" by (simp add: s0_def table_of_def fun_eq_iff)
  have r0: "requests s0
              = map (\<lambda>p. if fst p = k then shift_left offset p else p) (requests s)"
    using update_as_map[OF assms(2,3), of "\<lambda>v. v\<lparr>left_padding := left_padding v - offset\<rparr>"]
    by (simp add: s0_def shift_left_def)
  have o0: "block_pool s0 = block_pool s" "req_ids2reserved_blocks s0 = req_ids2reserved_blocks s"
    "tkv s0 = tkv s" "block_size s0 = block_size s"
    by (simp_all add: s0_def)
  from free_padded_blocks[OF lp] have
    F: "nat n \<le> length (table_of s0 k)" "table_of s1 k = drop (nat n) (table_of s0 k)"
       "block_pool s1 = block_pool s0 @ take (nat n) (table_of s0 k)"
       "map_of (req_ids2reserved_blocks s1) k
          = map_option (\<lambda>x. x - int (nat n)) (map_of (req_ids2reserved_blocks s0) k)"
       "\<And>r. r \<noteq> k \<Longrightarrow> table_of s1 r = table_of s0 r"
       "\<And>r. r \<noteq> k \<Longrightarrow>
          map_of (req_ids2reserved_blocks s1) r = map_of (req_ids2reserved_blocks s0) r"
       "requests s1 = requests s0" "tkv s1 = tkv s0" "block_size s1 = block_size s0"
    by simp_all
  from F(7) r0
  show "requests s1 = map (\<lambda>p. if fst p = k then shift_left offset p else p) (requests s)"
    by simp
  from F(1) show "nat n \<le> length (table_of s k)" by (simp add: t0)
  from F(2) show "table_of s1 k = drop (nat n) (table_of s k)" by (simp add: t0)
  from F(3) show "block_pool s1 = block_pool s @ take (nat n) (table_of s k)"
    by (simp add: t0 o0)
  from F(4) show "map_of (req_ids2reserved_blocks s1) k
           = map_option (\<lambda>x. x - int (nat n)) (map_of (req_ids2reserved_blocks s) k)"
    by (simp add: o0)
  from F(5) show "\<And>r. r \<noteq> k \<Longrightarrow> table_of s1 r = table_of s r" by (simp add: t0)
  from F(6) show "\<And>r. r \<noteq> k \<Longrightarrow>
           map_of (req_ids2reserved_blocks s1) r = map_of (req_ids2reserved_blocks s) r"
    by (simp add: o0)
  from F(8) show "tkv s1 = tkv s" by (simp add: o0)
  from F(9) show "block_size s1 = block_size s" by (simp add: o0)
qed


lemma reduce_loop:
  assumes "for_each (reduce_req offset n) ks s = Inr s'" and "distinct ks"
    and "set ks \<subseteq> fst ` set (requests s)" and "distinct (map fst (requests s))"
    and "list_all (\<lambda>p. req_id (snd p) = fst p) (requests s)"
  shows "requests s'
           = map (\<lambda>p. if fst p \<in> set ks then shift_left offset p else p) (requests s)
         \<and> (\<forall>k \<in> set ks. nat n \<le> length (table_of s k))
         \<and> (\<forall>r. table_of s' r
                = (if r \<in> set ks then drop (nat n) (table_of s r) else table_of s r))
         \<and> block_pool s'
             = block_pool s @ concat (map (\<lambda>k. take (nat n) (table_of s k)) ks)
         \<and> (\<forall>r. map_of (req_ids2reserved_blocks s') r
                = (if r \<in> set ks
                   then map_option (\<lambda>x. x - int (nat n)) (map_of (req_ids2reserved_blocks s) r)
                   else map_of (req_ids2reserved_blocks s) r))
         \<and> tkv s' = tkv s \<and> block_size s' = block_size s"
  using assms
proof (induction ks arbitrary: s)
  case Nil
  then show ?case by simp
next
  case (Cons x xs)
  from Cons.prems(1) obtain s1 where
    st: "reduce_req offset n x s = Inr s1"
    and lp: "for_each (reduce_req offset n) xs s1 = Inr s'"
    by (auto split: sum.splits)
  from Cons.prems(2) have dx: "distinct xs" and nx: "x \<notin> set xs" by auto
  from Cons.prems(3) obtain v where xv: "(x, v) \<in> set (requests s)" by auto
  with Cons.prems(4) have mv: "map_of (requests s) x = Some v" by simp
  from xv Cons.prems(5) have iv: "req_id v = x" by (auto simp: list_all_iff)
  note S = reduce_req_step[OF st Cons.prems(4) mv iv]
  have keys: "map fst (requests s1) = map fst (requests s)"
    unfolding S(1) by (simp add: shift_left_def comp_def if_distrib cong: if_cong)
  have p3: "set xs \<subseteq> fst ` set (requests s1)"
    using Cons.prems(3) keys by (metis list.set_map set_subset_Cons subset_trans)
  have p4: "distinct (map fst (requests s1))" using Cons.prems(4) keys by simp
  have p5: "list_all (\<lambda>p. req_id (snd p) = fst p) (requests s1)"
    using Cons.prems(5) unfolding S(1) by (auto simp: list_all_iff shift_left_def)
  from Cons.IH[OF lp dx p3 p4 p5] have
    I1: "requests s'
           = map (\<lambda>p. if fst p \<in> set xs then shift_left offset p else p) (requests s1)"
    and I2: "\<forall>k \<in> set xs. nat n \<le> length (table_of s1 k)"
    and I3: "\<forall>r. table_of s' r
                = (if r \<in> set xs then drop (nat n) (table_of s1 r) else table_of s1 r)"
    and I4: "block_pool s'
             = block_pool s1 @ concat (map (\<lambda>k. take (nat n) (table_of s1 k)) xs)"
    and I5: "\<forall>r. map_of (req_ids2reserved_blocks s') r
                = (if r \<in> set xs
                   then map_option (\<lambda>x. x - int (nat n)) (map_of (req_ids2reserved_blocks s1) r)
                   else map_of (req_ids2reserved_blocks s1) r)"
    and I6: "tkv s' = tkv s1" "block_size s' = block_size s1"
    by simp_all
  have same: "table_of s1 k = table_of s k" if "k \<in> set xs" for k
    using that nx S(6)[of k] by auto
  have c1: "requests s'
           = map (\<lambda>p. if fst p \<in> set (x # xs) then shift_left offset p else p) (requests s)"
    unfolding I1 S(1) using nx by (auto simp: shift_left_def)
  have c2: "\<forall>k \<in> set (x # xs). nat n \<le> length (table_of s k)"
    using I2 S(2) same by auto
  have c3: "\<forall>r. table_of s' r
                = (if r \<in> set (x # xs) then drop (nat n) (table_of s r) else table_of s r)"
    using I3 S(3) S(6) nx same by auto
  have "map (\<lambda>k. take (nat n) (table_of s1 k)) xs = map (\<lambda>k. take (nat n) (table_of s k)) xs"
    using same by (intro map_cong) simp_all
  with I4 S(4) have c4: "block_pool s'
             = block_pool s @ concat (map (\<lambda>k. take (nat n) (table_of s k)) (x # xs))"
    by simp
  have sameL: "map_of (req_ids2reserved_blocks s1) k = map_of (req_ids2reserved_blocks s) k"
    if "k \<in> set xs" for k
    using that nx S(7)[of k] by auto
  have c5: "\<forall>r. map_of (req_ids2reserved_blocks s') r
                = (if r \<in> set (x # xs)
                   then map_option (\<lambda>x. x - int (nat n)) (map_of (req_ids2reserved_blocks s) r)
                   else map_of (req_ids2reserved_blocks s) r)"
    using I5 S(5) S(7) nx sameL by auto
  have c6: "tkv s' = tkv s \<and> block_size s' = block_size s" using I6 S(8,9) by simp
  from c1 c2 c3 c4 c5 c6 show ?case by blast
qed


lemma min_list_shift:
  fixes c :: int
  shows "xs \<noteq> [] \<Longrightarrow> min_list (map (\<lambda>x. x - c) xs) = min_list xs - c"
proof (induction xs)
  case Nil
  then show ?case by simp
next
  case (Cons x xs)
  then show ?case by (cases xs) (auto simp: min_def)
qed

lemma min_list_nonneg:
  fixes xs :: "int list"
  assumes "xs \<noteq> []" and "list_all (\<lambda>x. 0 \<le> x) xs"
  shows "0 \<le> min_list xs"
proof -
  from assms(1) have "min_list xs \<in> set xs" by (simp add: min_list_Min)
  with assms(2) show ?thesis by (simp add: list_all_iff)
qed

lemma shift_left_zero: "shift_left 0 p = p"
  by (simp add: shift_left_def)

lemma reclamation_wf:
  assumes "reduce_left_padding s = Inr s'" and "0 < block_size s" and "requests_wf s"
  shows "0 \<le> n_padded_blocks s"
    and "n_padded_blocks s * block_size s \<le> min_left_pad s"
    and "min_left_pad s < n_padded_blocks s * block_size s + block_size s"
    and "tkv s' = tkv s - n_padded_blocks s * block_size s"
    and "block_size s' = block_size s"
    and "requests s' = map (shift_left (n_padded_blocks s * block_size s)) (requests s)"
    and "\<forall>k \<in> fst ` set (requests s).
           nat (n_padded_blocks s) \<le> length (table_of s k)
           \<and> table_of s' k = drop (nat (n_padded_blocks s)) (table_of s k)
           \<and> map_of (req_ids2reserved_blocks s') k
               = map_option (\<lambda>x. x - n_padded_blocks s) (map_of (req_ids2reserved_blocks s) k)"
    and "\<forall>r. r \<notin> fst ` set (requests s) \<longrightarrow> table_of s' r = table_of s r"
    and "block_pool s'
           = block_pool s
             @ concat (map (\<lambda>k. take (nat (n_padded_blocks s)) (table_of s k))
                         (map fst (requests s)))"
proof -
  define n where "n = n_padded_blocks s"
  define m where "m = min_left_pad s"
  define offset where "offset = n * block_size s"
  have nm: "n = m div block_size s" by (simp add: n_def m_def n_padded_blocks_def)
  have m0: "0 \<le> m"
  proof (cases "requests s = []")
    case True
    then show ?thesis by (simp add: m_def min_left_pad_def)
  next
    case False
    from assms(3) have "list_all (\<lambda>x. 0 \<le> x) (map (left_padding \<circ> snd) (requests s))"
      by (simp add: requests_wf_def list_all_iff)
    with False show ?thesis by (simp add: m_def min_left_pad_def min_list_nonneg)
  qed
  with assms(2) have n0: "0 \<le> n" by (simp add: nm pos_imp_zdiv_nonneg_iff)
  have om: "offset \<le> m" and mo: "m < offset + block_size s"
  proof -
    have "m = offset + m mod block_size s" by (simp add: offset_def nm)
    moreover have "0 \<le> m mod block_size s" "m mod block_size s < block_size s"
      using assms(2) by simp_all
    ultimately show "offset \<le> m" and "m < offset + block_size s" by linarith+
  qed
  have o0: "0 \<le> offset" using n0 assms(2) by (simp add: offset_def)
  have main: "tkv s' = tkv s - offset \<and> block_size s' = block_size s
         \<and> requests s' = map (shift_left offset) (requests s)
         \<and> (\<forall>k \<in> fst ` set (requests s).
               nat n \<le> length (table_of s k) \<and> table_of s' k = drop (nat n) (table_of s k)
               \<and> map_of (req_ids2reserved_blocks s') k
                   = map_option (\<lambda>x. x - n) (map_of (req_ids2reserved_blocks s) k))
         \<and> (\<forall>r. r \<notin> fst ` set (requests s) \<longrightarrow> table_of s' r = table_of s r)
         \<and> block_pool s'
             = block_pool s @ concat (map (\<lambda>k. take (nat n) (table_of s k)) (map fst (requests s)))"
  proof (cases "requests s = []")
    case True
    with assms(1) have "s' = s" by (simp add: reduce_left_padding_def)
    moreover from True have "offset = 0"
      by (simp add: offset_def nm m_def min_left_pad_def)
    ultimately show ?thesis using True by simp
  next
    case False
    then have mm: "min_list (map (left_padding \<circ> snd) (requests s)) = m"
      by (simp add: m_def min_left_pad_def)
    show ?thesis
    proof (cases "0 < offset")
      case True
      with assms(1,2) False mm obtain s1 where
        lp: "for_each (reduce_req offset n) (map fst (requests s)) s = Inr s1"
        and s': "s' = s1\<lparr>tkv := tkv s1 - offset\<rparr>"
        by (auto simp: reduce_left_padding_def Let_def offset_def nm split: sum.splits)
      from assms(3) have d: "distinct (map fst (requests s))"
        and i: "list_all (\<lambda>p. req_id (snd p) = fst p) (requests s)"
        by (simp_all add: requests_wf_def list_all_iff)
      have sub: "set (map fst (requests s)) \<subseteq> fst ` set (requests s)" by simp
      from reduce_loop[OF lp d sub d i] have
        L1: "requests s1
               = map (\<lambda>p. if fst p \<in> set (map fst (requests s)) then shift_left offset p else p)
                   (requests s)"
        and L2: "\<forall>k \<in> set (map fst (requests s)). nat n \<le> length (table_of s k)"
        and L3: "\<forall>r. table_of s1 r
                   = (if r \<in> set (map fst (requests s)) then drop (nat n) (table_of s r)
                      else table_of s r)"
        and L4: "block_pool s1
                   = block_pool s
                     @ concat (map (\<lambda>k. take (nat n) (table_of s k)) (map fst (requests s)))"
        and L5: "\<forall>r. map_of (req_ids2reserved_blocks s1) r
                   = (if r \<in> set (map fst (requests s))
                      then map_option (\<lambda>x. x - int (nat n)) (map_of (req_ids2reserved_blocks s) r)
                      else map_of (req_ids2reserved_blocks s) r)"
        and L6: "tkv s1 = tkv s" "block_size s1 = block_size s"
        by simp_all
      have R: "requests s1 = map (shift_left offset) (requests s)"
        unfolding L1 by (intro map_cong) simp_all
      from s' have T: "table_of s' = table_of s1" "block_pool s' = block_pool s1"
        "req_ids2reserved_blocks s' = req_ids2reserved_blocks s1" "requests s' = requests s1"
        "tkv s' = tkv s1 - offset" "block_size s' = block_size s1"
        by (simp_all add: table_of_def fun_eq_iff)
      from n0 have nn: "int (nat n) = n" by simp
      from R L2 L3 L4 L5 L6 show ?thesis unfolding T nn by simp
    next
      case False
      with o0 have z: "offset = 0" by simp
      with assms(2) have nz: "n = 0" by (simp add: offset_def)
      from assms(1,2) \<open>requests s \<noteq> []\<close> mm z have "s' = s\<lparr>tkv := tkv s - offset\<rparr>"
        by (auto simp: reduce_left_padding_def Let_def offset_def nm split: sum.splits)
      then have "s' = s" using z by simp
      then show ?thesis using z nz
        by (simp add: shift_left_zero[abs_def] option.map_ident)
    qed
  qed
  from n0 show "0 \<le> n_padded_blocks s" by (simp add: n_def)
  from om show "n_padded_blocks s * block_size s \<le> min_left_pad s"
    by (simp add: offset_def n_def m_def)
  from mo show "min_left_pad s < n_padded_blocks s * block_size s + block_size s"
    by (simp add: offset_def n_def m_def)
  from main show "tkv s' = tkv s - n_padded_blocks s * block_size s"
    and "block_size s' = block_size s"
    and "requests s' = map (shift_left (n_padded_blocks s * block_size s)) (requests s)"
    and "\<forall>k \<in> fst ` set (requests s).
           nat (n_padded_blocks s) \<le> length (table_of s k)
           \<and> table_of s' k = drop (nat (n_padded_blocks s)) (table_of s k)
           \<and> map_of (req_ids2reserved_blocks s') k
               = map_option (\<lambda>x. x - n_padded_blocks s) (map_of (req_ids2reserved_blocks s) k)"
    and "\<forall>r. r \<notin> fst ` set (requests s) \<longrightarrow> table_of s' r = table_of s r"
    and "block_pool s'
           = block_pool s
             @ concat (map (\<lambda>k. take (nat (n_padded_blocks s)) (table_of s k))
                         (map fst (requests s)))"
    unfolding offset_def n_def by blast+
qed


lemma reclamation_idempotent:
  assumes "reduce_left_padding s = Inr s'" and "0 < block_size s" and "requests_wf s"
  shows "reduce_left_padding s' = Inr s'"
proof (cases "requests s = []")
  case True
  with reclamation_wf(6)[OF assms] have "requests s' = []" by simp
  then show ?thesis by (simp add: reduce_left_padding_def)
next
  case False
  define m where "m = min_left_pad s"
  define offset where "offset = n_padded_blocks s * block_size s"
  note R = reclamation_wf[OF assms]
  from R(6) have rs: "requests s' = map (shift_left offset) (requests s)"
    by (simp add: offset_def)
  from False rs have ne: "requests s' \<noteq> []" by simp
  have e: "map (left_padding \<circ> snd) (requests s')
          = map (\<lambda>x. x - offset) (map (left_padding \<circ> snd) (requests s))"
    unfolding rs by (simp add: shift_left_def comp_def)
  have "min_list (map (left_padding \<circ> snd) (requests s'))
          = min_list (map (left_padding \<circ> snd) (requests s)) - offset"
    unfolding e by (rule min_list_shift) (use False in simp)
  with False have "min_list (map (left_padding \<circ> snd) (requests s')) = m - offset"
    by (simp add: m_def min_left_pad_def)
  moreover from R(2,3) have "0 \<le> m - offset" "m - offset < block_size s"
    by (simp_all add: m_def offset_def)
  ultimately have "min_list (map (left_padding \<circ> snd) (requests s')) div block_size s' = 0"
    using R(5) by simp
  with ne R(5) assms(2) show ?thesis
    by (simp add: reduce_left_padding_def Let_def)
qed

subsection \<open>The cached requests of a reachable state\<close>

lemma list_all_update:
  "list_all P al \<Longrightarrow> P (k, v) \<Longrightarrow> list_all P (AList.update k v al)"
  by (induction al) auto

lemma list_all_delete: "list_all P al \<Longrightarrow> list_all P (AList.delete k al)"
  by (induction al) auto

lemma requests_wf_update:
  assumes "requests_wf s" and "req_id v = k" and "0 \<le> left_padding v"
    and "requests s' = AList.update k v (requests s)"
  shows "requests_wf s'"
  using assms by (simp add: requests_wf_def distinct_update list_all_update)

lemma requests_wf_entry:
  assumes "requests_wf s" and "map_of (requests s) k = Some v"
  shows "req_id v = k" and "0 \<le> left_padding v"
proof -
  from assms(2) have "(k, v) \<in> set (requests s)" by (rule map_of_SomeD)
  with assms(1) show "req_id v = k" and "0 \<le> left_padding v"
    by (auto simp: requests_wf_def list_all_iff)
qed

lemma prepare_prompt_requests:
  assumes "prepare_prompt s [r] = Inr (s', inp)"
  shows "block_size s' = block_size s"
    and "requests s'
           = AList.update (new_req_id r)
               \<lparr>req_id = new_req_id r, prompt_token_ids = new_prompt_token_ids r,
                output_token_ids = [],
                left_padding = tkv s' - int (length (new_prompt_token_ids r))\<rparr>
               (requests s)"
  using assms
  by (auto simp: prepare_prompt_def Let_def
      split: sum.splits option.splits prod.splits if_splits)

lemma prepare_prompt_wf:
  assumes "prepare_prompt s [r] = Inr (s', inp)" and "0 < block_size s" and "requests_wf s"
  shows "requests_wf s'"
proof -
  from prefill_step[OF assms(1,2)] have
    k: "tkv s' = (if req_ids2blocks s = [] then block_padding s r else tkv s)" by simp
  from prepare_prompt_parts[OF assms(1)] have
    g: "req_ids2blocks s \<noteq> [] \<longrightarrow> int (length (new_prompt_token_ids r)) \<le> tkv s" by blast
  have "int (length (new_prompt_token_ids r)) \<le> tkv s'"
  proof (cases "req_ids2blocks s = []")
    case True
    with k ceil_div_bounds(1)[OF assms(2), of "int (length (new_prompt_token_ids r))"]
    show ?thesis by (simp add: block_padding_def)
  next
    case False
    with k g show ?thesis by simp
  qed
  then have "0 \<le> tkv s' - int (length (new_prompt_token_ids r))" by simp
  with requests_wf_update[OF assms(3) _ _ prepare_prompt_requests(2)[OF assms(1)]]
  show ?thesis by simp
qed

lemma prepare_decode_requests:
  assumes "prepare_decode s crd = Inr (s', inp)"
  shows "requests s' = requests s \<and> block_size s' = block_size s"
proof -
  from assms obtain s1 acc where
    l: "for_each (decode_req crd) (sorted_requests_ids (input_batch s)) (s, empty_decode_lists)
          = Inr (s1, acc)"
    and t: "requests s' = requests s1" "block_size s' = block_size s1"
    by (auto simp: prepare_decode_def Let_def split: if_splits sum.splits prod.splits)
  have "requests (fst (s1, acc)) = requests s \<and> block_size (fst (s1, acc)) = block_size s"
    by (rule for_each_invariant[OF l,
          where P = "\<lambda>sa. requests (fst sa) = requests s \<and> block_size (fst sa) = block_size s"])
       (auto dest: decode_req_frame)
  with t show ?thesis by simp
qed

lemma reduce_left_padding_wf:
  assumes "reduce_left_padding s = Inr s'" and "0 < block_size s" and "requests_wf s"
  shows "requests_wf s'"
proof -
  define offset where "offset = n_padded_blocks s * block_size s"
  note R = reclamation_wf[OF assms]
  from R(6) have rs: "requests s' = map (shift_left offset) (requests s)"
    by (simp add: offset_def)
  have le: "offset \<le> left_padding (snd p)" if "p \<in> set (requests s)" for p
  proof -
    from that have ne: "requests s \<noteq> []" by auto
    from that have "left_padding (snd p) \<in> set (map (left_padding \<circ> snd) (requests s))"
      by auto
    then have "min_list (map (left_padding \<circ> snd) (requests s)) \<le> left_padding (snd p)"
      using ne by (simp add: min_list_Min)
    with ne R(2) show ?thesis by (simp add: offset_def min_left_pad_def)
  qed
  have "map fst (requests s') = map fst (requests s)"
    unfolding rs by (simp add: shift_left_def comp_def)
  moreover have "list_all (\<lambda>p. req_id (snd p) = fst p \<and> 0 \<le> left_padding (snd p)) (requests s')"
    using assms(3) le unfolding rs
    by (auto simp: requests_wf_def list_all_iff shift_left_def)
  ultimately show ?thesis using assms(3) by (simp add: requests_wf_def)
qed

lemma update_cached_req_wf:
  assumes "update_cached_req crd ir s = Inr s'" and "requests_wf s"
  shows "requests_wf s' \<and> block_size s' = block_size s"
proof -
  from assms(1) obtain v added where
    m: "map_of (requests s) (snd ir) = Some v"
    and r: "requests s'
              = AList.update (snd ir) (v\<lparr>output_token_ids := output_token_ids v @ added\<rparr>)
                  (requests s)"
    and b: "block_size s' = block_size s"
    by (auto simp: update_cached_req_def Let_def split: option.splits if_splits sum.splits)
  from requests_wf_entry[OF assms(2) m] requests_wf_update[OF assms(2) _ _ r] b
  show ?thesis by simp
qed

lemma append_sampled_wf:
  assumes "append_sampled sampled_ids ir s = Inr s'" and "requests_wf s"
  shows "requests_wf s' \<and> block_size s' = block_size s"
proof -
  from assms(1) obtain v added where
    m: "map_of (requests s) (snd ir) = Some v"
    and r: "requests s'
              = AList.update (snd ir) (v\<lparr>output_token_ids := output_token_ids v @ added\<rparr>)
                  (requests s)"
    and b: "block_size s' = block_size s"
    by (auto simp: append_sampled_def Let_def split: option.splits if_splits)
  from requests_wf_entry[OF assms(2) m] requests_wf_update[OF assms(2) _ _ r] b
  show ?thesis by simp
qed

lemma fold_remove_finished_wf:
  "requests_wf s \<Longrightarrow>
   requests_wf (fold remove_finished_req ids s)
   \<and> block_size (fold remove_finished_req ids s) = block_size s"
proof (induction ids arbitrary: s)
  case Nil
  then show ?case by simp
next
  case (Cons x xs)
  from Cons.prems have "requests_wf (remove_finished_req x s)"
    by (simp add: requests_wf_def remove_finished_req_def distinct_delete list_all_delete)
  from Cons.IH[OF this] show ?case by (simp add: remove_finished_req_def)
qed

lemma free_request_requests:
  "free_request rid s = Inr s' \<Longrightarrow> requests s' = requests s \<and> block_size s' = block_size s"
  by (auto simp: free_request_def Let_def split: option.splits if_splits)

lemma update_states_wf:
  assumes "update_states s so = Inr s'" and "requests_wf s"
  shows "requests_wf s' \<and> block_size s' = block_size s"
proof -
  from assms(1) obtain s1 where
    u: "for_each (update_cached_req (scheduled_cached_reqs so))
          (enumerate_list (req_ids (scheduled_cached_reqs so))) s = Inr s1"
    and f: "for_each free_request (finished_req_ids so)
              (fold remove_finished_req (finished_req_ids so) s1) = Inr s'"
    by (auto simp: update_states_def Let_def split: sum.splits)
  have 1: "requests_wf s1 \<and> block_size s1 = block_size s"
    by (rule for_each_invariant[OF u,
          where P = "\<lambda>t. requests_wf t \<and> block_size t = block_size s"])
       (use assms(2) in \<open>auto dest: update_cached_req_wf\<close>)
  with fold_remove_finished_wf[of s1 "finished_req_ids so"] have
    2: "requests_wf (fold remove_finished_req (finished_req_ids so) s1)
        \<and> block_size (fold remove_finished_req (finished_req_ids so) s1) = block_size s"
    by simp
  show ?thesis
    by (rule for_each_invariant[OF f,
          where P = "\<lambda>t. requests_wf t \<and> block_size t = block_size s"])
       (use 2 in \<open>auto simp: requests_wf_def dest: free_request_requests\<close>)
qed

lemma reduce_req_block_size:
  assumes "reduce_req offset n k s = Inr s'"
  shows "block_size s' = block_size s"
proof -
  from assms obtain v where
    l: "for_each (\<lambda>_. free_padded_block (req_id v)) (replicate (nat n) ())
          (s\<lparr>requests :=
               AList.update k (v\<lparr>left_padding := left_padding v - offset\<rparr>) (requests s)\<rparr>)
          = Inr s'"
    by (auto simp: reduce_req_def split: option.splits)
  from free_padded_blocks[OF l] show ?thesis by simp
qed

lemma reduce_left_padding_block_size:
  assumes "reduce_left_padding s = Inr s'"
  shows "block_size s' = block_size s"
proof (cases "length (requests s) = 0")
  case True
  with assms show ?thesis by (simp add: reduce_left_padding_def)
next
  case False
  define n where "n = min_list (map (left_padding \<circ> snd) (requests s)) div block_size s"
  define offset where "offset = n * block_size s"
  from assms False obtain s1 where
    l: "(if offset > 0 then for_each (reduce_req offset n) (map fst (requests s)) s else Inr s)
          = Inr s1"
    and t: "block_size s' = block_size s1"
    by (auto simp: reduce_left_padding_def Let_def n_def offset_def
        split: if_splits sum.splits)
  have "block_size s1 = block_size s"
  proof (cases "offset > 0")
    case True
    with l have l': "for_each (reduce_req offset n) (map fst (requests s)) s = Inr s1" by simp
    show ?thesis
      by (rule for_each_invariant[OF l', where P = "\<lambda>t. block_size t = block_size s"])
         (auto dest: reduce_req_block_size)
  next
    case False
    with l show ?thesis by simp
  qed
  with t show ?thesis by simp
qed

lemma update_states_block_size:
  assumes "update_states s so = Inr s'"
  shows "block_size s' = block_size s"
proof -
  from assms obtain s1 where
    u: "for_each (update_cached_req (scheduled_cached_reqs so))
          (enumerate_list (req_ids (scheduled_cached_reqs so))) s = Inr s1"
    and f: "for_each free_request (finished_req_ids so)
              (fold remove_finished_req (finished_req_ids so) s1) = Inr s'"
    by (auto simp: update_states_def Let_def split: sum.splits)
  have 1: "block_size s1 = block_size s"
    by (rule for_each_invariant[OF u, where P = "\<lambda>t. block_size t = block_size s"])
       (auto simp: update_cached_req_def Let_def split: option.splits if_splits sum.splits)
  have 2: "block_size (fold remove_finished_req ids t) = block_size t" for ids t
    by (induction ids arbitrary: t) (simp_all add: remove_finished_req_def)
  show ?thesis
    by (rule for_each_invariant[OF f, where P = "\<lambda>t. block_size t = block_size s"])
       (use 1 2 in \<open>auto dest: free_request_requests\<close>)
qed

lemma sampled_block_size:
  assumes "for_each (append_sampled sampled_ids) irs s = Inr s'"
  shows "block_size s' = block_size s"
  by (rule for_each_invariant[OF assms, where P = "\<lambda>t. block_size t = block_size s"])
     (auto simp: append_sampled_def Let_def split: option.splits if_splits)

lemma reachable_wf: "reachable s \<Longrightarrow> 0 < block_size s \<Longrightarrow> requests_wf s"
proof (induction rule: reachable.induct)
  case (fresh bs pad cap driver num_blocks_override num_blocks)
  show ?case by (simp add: requests_wf_def init_runner_def set_blocks_def Let_def)
next
  case (prefill s r s' inp)
  from prepare_prompt_requests(1)[OF prefill.hyps(3)] prefill.prems
  have b: "0 < block_size s" by simp
  from prepare_prompt_wf[OF prefill.hyps(3) b prefill.IH[OF b]] show ?case .
next
  case (decode s crd s' inp)
  from prepare_decode_requests[OF decode.hyps(2)] decode.prems decode.IH
  show ?case by (simp add: requests_wf_def)
next
  case (reclaim s s')
  from reduce_left_padding_block_size[OF reclaim.hyps(2)] reclaim.prems
  have b: "0 < block_size s" by simp
  from reduce_left_padding_wf[OF reclaim.hyps(2) b reclaim.IH[OF b]] show ?case .
next
  case (finished s so s')
  from update_states_block_size[OF finished.hyps(2)] finished.prems
  have b: "0 < block_size s" by simp
  from update_states_wf[OF finished.hyps(2) finished.IH[OF b]] show ?case by simp
next
  case (sampled s sampled_ids irs s')
  from sampled_block_size[OF sampled.hyps(2)] sampled.prems
  have b: "0 < block_size s" by simp
  have "requests_wf s' \<and> block_size s' = block_size s"
    by (rule for_each_invariant[OF sampled.hyps(2),
          where P = "\<lambda>t. requests_wf t \<and> block_size t = block_size s"])
       (use sampled.IH[OF b] in \<open>auto dest: append_sampled_wf\<close>)
  then show ?case by simp
qed


text \<open>
  C6. Left-padding reclamation in a reachable state with a positive block size, when it
  returns. With \<open>n = \<lfloor>min_left_pad / block_size\<rfloor>\<close>, the least left padding of the cached
  requests in whole blocks: the cursor and the left padding of every cached request drop
  by \<open>n * block_size\<close>; every cached request loses the first \<open>n\<close> blocks of its table and
  \<open>n\<close> from its ledger entry; these blocks, and no other, join the right end of the pool,
  request after request; the tables of other ids stay; and a second reclamation right
  after returns the state it is given.
\<close>

theorem left_padding_reclamation:
  assumes "reachable s" and "0 < block_size s" and "reduce_left_padding s = Inr s'"
  shows "n_padded_blocks s = \<lfloor>real_of_int (min_left_pad s) / real_of_int (block_size s)\<rfloor>
         \<and> 0 \<le> n_padded_blocks s
         \<and> tkv s' = tkv s - n_padded_blocks s * block_size s
         \<and> requests s' = map (shift_left (n_padded_blocks s * block_size s)) (requests s)
         \<and> (\<forall>k \<in> fst ` set (requests s).
               nat (n_padded_blocks s) \<le> length (table_of s k)
               \<and> table_of s' k = drop (nat (n_padded_blocks s)) (table_of s k)
               \<and> map_of (req_ids2reserved_blocks s') k
                   = map_option (\<lambda>x. x - n_padded_blocks s)
                       (map_of (req_ids2reserved_blocks s) k))
         \<and> (\<forall>r. r \<notin> fst ` set (requests s) \<longrightarrow> table_of s' r = table_of s r)
         \<and> block_pool s'
             = block_pool s
               @ concat (map (\<lambda>k. take (nat (n_padded_blocks s)) (table_of s k))
                           (map fst (requests s)))
         \<and> reduce_left_padding s' = Inr s'"
proof -
  from reachable_wf[OF assms(1,2)] have w: "requests_wf s" .
  note R = reclamation_wf[OF assms(3,2) w]
  have f: "n_padded_blocks s = \<lfloor>real_of_int (min_left_pad s) / real_of_int (block_size s)\<rfloor>"
    by (simp add: n_padded_blocks_def floor_divide_of_int_eq)
  from reclamation_idempotent[OF assms(3,2) w] have i: "reduce_left_padding s' = Inr s'" .
  from f R(1) R(4) R(6) R(7) R(8) R(9) i show ?thesis by blast
qed

theorem left_padding_reclamation_witness:
  "reachable ex_after_finish_a \<and> 0 < block_size ex_after_finish_a
   \<and> reduce_left_padding ex_after_finish_a = Inr ex_after_reclaim
   \<and> min_left_pad ex_after_finish_a = 6 \<and> n_padded_blocks ex_after_finish_a = 1
   \<and> tkv ex_after_finish_a = 9 \<and> tkv ex_after_reclaim = 5
   \<and> table_of ex_after_finish_a ''b'' = [3, 4, 5] \<and> table_of ex_after_reclaim ''b'' = [4, 5]
   \<and> block_pool ex_after_reclaim = block_pool ex_after_finish_a @ [3]
   \<and> reduce_left_padding ex_after_reclaim = Inr ex_after_reclaim"
proof -
  have h: "0 < block_size ex_after_finish_a"
    by (simp add: ex_after_finish_a_def ex_state_def)
  have e: "min_left_pad ex_after_finish_a = 6" "n_padded_blocks ex_after_finish_a = 1"
    "tkv ex_after_finish_a = 9" "tkv ex_after_reclaim = 5"
    "table_of ex_after_finish_a ''b'' = [3, 4, 5]" "table_of ex_after_reclaim ''b'' = [4, 5]"
    "block_pool ex_after_reclaim = block_pool ex_after_finish_a @ [3]"
    by (simp_all add: min_left_pad_def n_padded_blocks_def table_of_def ex_after_finish_a_def
        ex_after_reclaim_def ex_state_def ex_state_b_def)
  from left_padding_reclamation[OF ex_reachable_finish_a h ex_reclaim]
  have "reduce_left_padding ex_after_reclaim = Inr ex_after_reclaim" by blast
  with ex_reachable_finish_a h ex_reclaim e show ?thesis by simp
qed

end
